theory Spec2Isabelle
  imports Main "HOL-Library.Word"
begin

section \<open>Strings\<close>

text \<open>
  A JavaScript string is a sequence of 16-bit code units. The regular expressions of
  the source have no \<open>u\<close> flag, so they too work on code units.
\<close>

type_synonym jsstring = "16 word list"

definition lit :: "string \<Rightarrow> jsstring" where
  "lit s = map (\<lambda>c. of_nat (of_char c)) s"

text \<open>
  \<open>rx_escapable\<close>: the character class of the source's regular expression, one
  disjunct per member or range, in the order of the source.
\<close>

definition rx_escapable :: "16 word \<Rightarrow> bool" where
  "rx_escapable c \<longleftrightarrow>
     c = 0x5c \<or> c = 0x22 \<or> c \<le> 0x1f \<or> (0x7f \<le> c \<and> c \<le> 0x9f) \<or> c = 0xad \<or>
     (0x600 \<le> c \<and> c \<le> 0x604) \<or> c = 0x70f \<or> c = 0x17b4 \<or> c = 0x17b5 \<or>
     (0x200c \<le> c \<and> c \<le> 0x200f) \<or> (0x2028 \<le> c \<and> c \<le> 0x202f) \<or>
     (0x2060 \<le> c \<and> c \<le> 0x206f) \<or> c = 0xfeff \<or> 0xfff0 \<le> c"

text \<open>\<open>meta\<close>: the table of character substitutions; \<open>None\<close> where the table has no entry.\<close>

definition meta :: "16 word \<Rightarrow> jsstring option" where
  "meta a =
     (if a = 0x08 then Some [0x5c, 0x62]
      else if a = 0x09 then Some [0x5c, 0x74]
      else if a = 0x0a then Some [0x5c, 0x6e]
      else if a = 0x0c then Some [0x5c, 0x66]
      else if a = 0x0d then Some [0x5c, 0x72]
      else if a = 0x22 then Some [0x5c, 0x22]
      else if a = 0x5c then Some [0x5c, 0x5c]
      else None)"

text \<open>
  \<open>toString_radix r n\<close> is \<open>n.toString(r)\<close> for a natural number \<open>n\<close>: digits
  \<open>0-9a-z\<close>, most significant first, no leading zero.
\<close>

definition digit_char :: "nat \<Rightarrow> 16 word" where
  "digit_char d = (if d < 10 then 0x30 + of_nat d else 0x61 + of_nat (d - 10))"

function toString_radix :: "nat \<Rightarrow> nat \<Rightarrow> jsstring" where
  "toString_radix r n =
     (if n < r \<or> r < 2 then [digit_char n]
      else toString_radix r (n div r) @ [digit_char (n mod r)])"
  by pat_completeness auto
termination
  by (relation "measure snd") auto

declare toString_radix.simps [simp del]

text \<open>\<open>slice_last k s\<close> is \<open>s.slice(-k)\<close>.\<close>

definition slice_last :: "nat \<Rightarrow> 'a list \<Rightarrow> 'a list" where
  "slice_last k s = drop (length s - k) s"

text \<open>The callback that \<open>quote\<close> hands to \<open>replace\<close>.\<close>

definition escape_unit :: "16 word \<Rightarrow> jsstring" where
  "escape_unit a =
     (case meta a of
        Some c \<Rightarrow> c
      | None \<Rightarrow> [0x5c, 0x75] @ slice_last 4 (lit ''0000'' @ toString_radix 16 (unat a)))"

text \<open>\<open>string.replace(rx_escapable, f)\<close>: the expression is global, every match is one unit.\<close>

definition replace_escapable :: "(16 word \<Rightarrow> jsstring) \<Rightarrow> jsstring \<Rightarrow> jsstring" where
  "replace_escapable f s = concat (map (\<lambda>a. if rx_escapable a then f a else [a]) s)"

definition quote :: "jsstring \<Rightarrow> jsstring" where
  "quote s =
     (if list_ex rx_escapable s
      then [0x22] @ replace_escapable escape_unit s @ [0x22]
      else [0x22] @ s @ [0x22])"

section \<open>Tagged tokens\<close>

definition toDataURL :: "jsstring \<Rightarrow> jsstring \<Rightarrow> jsstring" where
  "toDataURL type val = lit ''data:'' @ type @ lit '','' @ val"

text \<open>\<open>split sep s\<close> is \<open>s.split(sep)\<close> for a separator of one unit.\<close>

fun split :: "16 word \<Rightarrow> jsstring \<Rightarrow> jsstring list" where
  "split sep [] = [[]]"
| "split sep (c # cs) =
     (if c = sep then [] # split sep cs
      else (case split sep cs of
              [] \<Rightarrow> [[c]]
            | x # xs \<Rightarrow> (c # x) # xs))"

text \<open>\<open>element xs i\<close> is \<open>xs[i]\<close>; \<open>None\<close> is JavaScript's \<open>undefined\<close>.\<close>

definition element :: "'a list \<Rightarrow> nat \<Rightarrow> 'a option" where
  "element xs i = (if i < length xs then Some (xs ! i) else None)"

record data_url =
  tag_type :: "jsstring option"
  tag_value :: "jsstring option"

definition parseDataURL :: "jsstring \<Rightarrow> data_url" where
  "parseDataURL text =
     (let parts = split 0x2c text;
          type = element parts 0;
          val = element parts 1
      in \<lparr> tag_type = (case type of None \<Rightarrow> None | Some t \<Rightarrow> element (split 0x3a t) 1),
           tag_value = val \<rparr>)"

section \<open>Values\<close>

text \<open>
  The values of the embedding are data: \<open>undefined\<close>, \<open>null\<close>, booleans, numbers,
  big integers, strings, symbols, dates, arrays and plain objects. A finite number is a
  value of the type parameter \<open>'n\<close>; the three other numbers are constructors of their
  own. A date is its time value, \<open>None\<close> for an invalid date. An object is the list of its
  own enumerable properties in the order in which \<open>for ... in\<close> and \<open>Object.keys\<close>
  enumerate them; the keys of an object are distinct. An array is the list of what its
  indices read as (a hole reads as \<open>undefined\<close>, and the source only ever reads).
  Functions are not values of the embedding: objects carry no methods of their own (no
  \<open>toJSON\<close>). Every object inherits from \<open>Object.prototype\<close>; what a read of a key that
  the object does not own finds there is modelled where the encoder makes such a read
  (\<open>prototype_method\<close>, \<open>str_prototype\<close>).
\<close>

datatype 'n jsnum = Fin 'n | NaN | PosInf | NegInf

datatype 'n jsvalue =
    JUndefined
  | JNull
  | JBool bool
  | JNumber "'n jsnum"
  | JBigInt int
  | JString jsstring
  | JSymbol nat
  | JDate "int option"
  | JArray "'n jsvalue list"
  | JObject "(jsstring \<times> 'n jsvalue) list"

text \<open>\<open>const undefinedSymbol = Symbol('undefined')\<close>: one symbol, fixed for the module.\<close>

definition undefinedSymbol :: "'n jsvalue" where
  "undefinedSymbol = JSymbol 0"

datatype jstype = T_undefined | T_object | T_boolean | T_number | T_bigint | T_string | T_symbol

fun typeof :: "'n jsvalue \<Rightarrow> jstype" where
  "typeof JUndefined = T_undefined"
| "typeof JNull = T_object"
| "typeof (JBool b) = T_boolean"
| "typeof (JNumber x) = T_number"
| "typeof (JBigInt i) = T_bigint"
| "typeof (JString s) = T_string"
| "typeof (JSymbol n) = T_symbol"
| "typeof (JDate t) = T_object"
| "typeof (JArray xs) = T_object"
| "typeof (JObject kvs) = T_object"

text \<open>
  What the source takes from the host about numbers, as parameters of the model:
  \<^item> \<open>NumberToString\<close>: \<open>String(x)\<close> for a finite number \<open>x\<close>;
  \<^item> \<open>StringToNumber\<close>: \<open>Number(s)\<close>, which is also the value the host's parser gives
    a number token;
  \<^item> \<open>StringToBigInt\<close>: \<open>BigInt(s)\<close>, \<open>None\<close> where it throws a \<open>SyntaxError\<close>;
  \<^item> \<open>TimeClip\<close>: the time value of \<open>new Date(x)\<close>, \<open>None\<close> for an invalid date;
  \<^item> \<open>loop_count\<close>: how often \<open>for (i = 0; i < x; i += 1)\<close> runs its body;
  \<^item> \<open>is_zero\<close>: whether \<open>x\<close> is \<open>0\<close> or \<open>-0\<close>.
\<close>

record 'n host =
  NumberToString :: "'n \<Rightarrow> jsstring"
  StringToNumber :: "jsstring \<Rightarrow> 'n jsnum"
  StringToBigInt :: "jsstring \<Rightarrow> int option"
  TimeClip :: "'n jsnum \<Rightarrow> int option"
  loop_count :: "'n \<Rightarrow> nat"
  is_zero :: "'n \<Rightarrow> bool"

text \<open>
  \<open>String(i)\<close> for a big integer, an array index or a time value: the decimal numeral
  (a time value is an integer of magnitude at most \<open>8.64e15\<close>, or \<open>NaN\<close>).
\<close>

definition String_nat :: "nat \<Rightarrow> jsstring" where
  "String_nat n = toString_radix 10 n"

definition String_int :: "int \<Rightarrow> jsstring" where
  "String_int i = (if i < 0 then 0x2d # String_nat (nat (- i)) else String_nat (nat i))"

definition String_time :: "int option \<Rightarrow> jsstring" where
  "String_time t = (case t of None \<Rightarrow> lit ''NaN'' | Some ms \<Rightarrow> String_int ms)"

text \<open>Truthiness, as \<open>if (v)\<close> and \<open>v && ...\<close> test it.\<close>

fun truthy :: "'n host \<Rightarrow> 'n jsvalue \<Rightarrow> bool" where
  "truthy h JUndefined = False"
| "truthy h JNull = False"
| "truthy h (JBool b) = b"
| "truthy h (JNumber x) = (case x of Fin n \<Rightarrow> \<not> is_zero h n | NaN \<Rightarrow> False | _ \<Rightarrow> True)"
| "truthy h (JBigInt i) = (i \<noteq> 0)"
| "truthy h (JString s) = (s \<noteq> [])"
| "truthy h (JSymbol n) = True"
| "truthy h (JDate t) = True"
| "truthy h (JArray xs) = True"
| "truthy h (JObject kvs) = True"

text \<open>
  \<open>holder[key]\<close> on the own properties of an object, for a key that
  \<open>Object.prototype\<close> does not have either: a missing key reads as \<open>undefined\<close>.
\<close>

definition get_prop :: "(jsstring \<times> 'n jsvalue) list \<Rightarrow> jsstring \<Rightarrow> 'n jsvalue" where
  "get_prop kvs k = (case map_of kvs k of None \<Rightarrow> JUndefined | Some v \<Rightarrow> v)"

section \<open>The encoder\<close>

text \<open>\<open>partial.join(sep)\<close>.\<close>

fun join :: "jsstring \<Rightarrow> jsstring list \<Rightarrow> jsstring" where
  "join sep [] = []"
| "join sep [x] = x"
| "join sep (x # y # ys) = x @ sep @ join sep (y # ys)"

text \<open>
  \<open>str\<close> returns a string or \<open>undefined\<close> (\<open>None\<close>). \<open>or_null v\<close> is \<open>v || 'null'\<close>;
  \<open>member gap k v\<close> is what \<open>if (v) partial.push(quote(k) + (gap ? ': ' : ':') + v)\<close>
  adds to \<open>partial\<close>; \<open>wrap\<close> is the final join between brackets or braces.
\<close>

definition or_null :: "jsstring option \<Rightarrow> jsstring" where
  "or_null v = (case v of None \<Rightarrow> lit ''null'' | Some t \<Rightarrow> if t = [] then lit ''null'' else t)"

definition member :: "jsstring \<Rightarrow> jsstring \<Rightarrow> jsstring option \<Rightarrow> jsstring list" where
  "member gap k v =
     (case v of
        None \<Rightarrow> []
      | Some t \<Rightarrow>
          if t = [] then []
          else [quote k @ (if gap \<noteq> [] then lit '': '' else lit '':'') @ t])"

definition wrap :: "16 word \<Rightarrow> 16 word \<Rightarrow> jsstring \<Rightarrow> jsstring \<Rightarrow> jsstring list \<Rightarrow> jsstring" where
  "wrap l r gap mind partial =
     (if partial = [] then [l, r]
      else if gap \<noteq> []
        then [l, 0x0a] @ gap @ join ([0x2c, 0x0a] @ gap) partial @ [0x0a] @ mind @ [r]
        else [l] @ join [0x2c] partial @ [r])"

text \<open>The measure of \<open>str\<close>'s recursion: a missing key of an empty object reads as \<open>undefined\<close>.\<close>

fun str_weight :: "'n jsvalue \<Rightarrow> nat" where
  "str_weight (JObject kvs) = 2 * size (JObject kvs) + 1"
| "str_weight v = 2 * size v"

lemma str_weight_bounds: "2 * size v \<le> str_weight v \<and> str_weight v \<le> 2 * size v + 1"
  by (cases v) simp_all

lemma map_of_size:
  "map_of kvs k = Some v \<Longrightarrow> size v < Suc (size_list (size_prod (\<lambda>_. 0) size) kvs)"
  by (induction kvs) (auto split: if_splits)

lemma str_weight_element: "x \<in> set xs \<Longrightarrow> str_weight x < str_weight (JArray xs)"
proof -
  assume "x \<in> set xs"
  then have "size x < Suc (size_list size xs)"
    by (simp add: less_Suc_eq_le size_list_estimation')
  with str_weight_bounds [of x] show ?thesis by simp
qed

lemma str_weight_prop: "str_weight (get_prop kvs k) < str_weight (JObject kvs)"
proof (cases "map_of kvs k")
  case None
  then show ?thesis by (simp add: get_prop_def)
next
  case (Some v)
  with map_of_size [of kvs k v] str_weight_bounds [of v] show ?thesis
    by (simp add: get_prop_def)
qed

lemma str_weight_snd: "kv \<in> set kvs \<Longrightarrow> str_weight (snd kv) < str_weight (JObject kvs)"
proof -
  assume "kv \<in> set kvs"
  then have "size (snd kv) < Suc (size_list (size_prod (\<lambda>_. 0) size) kvs)"
    by (induction kvs) auto
  with str_weight_bounds [of "snd kv"] show ?thesis by simp
qed

text \<open>
  The properties of \<open>Object.prototype\<close>, which every plain object inherits: its
  methods, each of them a function, and the accessor \<open>__proto__\<close>, which reads as
  \<open>Object.prototype\<close> on a plain object and as \<open>null\<close> on \<open>Object.prototype\<close> itself.
  For a function \<open>str\<close> returns \<open>undefined\<close>. \<open>str_prototype indent entries mind\<close> is
  what \<open>str\<close> returns for \<open>Object.prototype\<close> under an inclusion list: an object, not an
  array, whose listed keys read as a function, as \<open>null\<close>, or as \<open>undefined\<close>.
\<close>

definition prototype_method :: "jsstring \<Rightarrow> bool" where
  "prototype_method k \<longleftrightarrow>
     k \<in> set (map lit [''constructor'', ''hasOwnProperty'', ''isPrototypeOf'', ''propertyIsEnumerable'',
                        ''toLocaleString'', ''toString'', ''valueOf'', ''__defineGetter__'',
                        ''__defineSetter__'', ''__lookupGetter__'', ''__lookupSetter__''])"

definition str_prototype :: "jsstring \<Rightarrow> 'n jsvalue list \<Rightarrow> jsstring \<Rightarrow> jsstring" where
  "str_prototype indent entries mind =
     (let gap = mind @ indent;
          partial =
            concat (map (\<lambda>e. case e of
                               JString k \<Rightarrow>
                                 member gap k
                                   (if prototype_method k then None
                                    else if k = lit ''__proto__'' then Some (lit ''null'')
                                    else Some (quote (toDataURL (lit ''undefined'') [])))
                             | _ \<Rightarrow> []) entries)
      in wrap 0x7b 0x7d gap mind partial)"

text \<open>
  \<open>str h indent rep mind value\<close> is \<open>str(key, holder)\<close> with \<open>value = holder[key]\<close>, for
  a call with no plugin registered and a replacer that is not a function. The module's
  variables become arguments: \<open>indent\<close>; \<open>rep\<close>, which is \<open>Some\<close> of the entries
  \<open>rep[0], ..., rep[rep.length - 1]\<close> when \<open>rep && typeof rep === 'object'\<close> and \<open>None\<close>
  otherwise; and \<open>gap\<close>, whose value on entry is \<open>mind\<close>. \<open>path\<close> is only handed to
  plugins and to a replacer function, and is left out. Under an inclusion list
  \<open>value[k]\<close> is read for keys that the object may not own: an inherited method is a
  function, for which \<open>str\<close> returns \<open>undefined\<close>, and an inherited \<open>__proto__\<close> is
  \<open>Object.prototype\<close>.
\<close>

function str ::
  "'n host \<Rightarrow> jsstring \<Rightarrow> 'n jsvalue list option \<Rightarrow> jsstring \<Rightarrow> 'n jsvalue \<Rightarrow> jsstring option" where
  "str h indent rep mind JUndefined = Some (quote (toDataURL (lit ''undefined'') []))"
| "str h indent rep mind (JString s) = Some (quote s)"
| "str h indent rep mind (JNumber x) =
     (case x of
        NaN \<Rightarrow> Some (quote (toDataURL (lit ''number'') (lit ''NaN'')))
      | PosInf \<Rightarrow> Some (quote (toDataURL (lit ''number'') (lit ''Infinity'')))
      | NegInf \<Rightarrow> Some (quote (toDataURL (lit ''number'') (lit ''-Infinity'')))
      | Fin n \<Rightarrow> Some (NumberToString h n))"
| "str h indent rep mind (JBigInt i) = Some (quote (toDataURL (lit ''bigint'') (String_int i)))"
| "str h indent rep mind (JBool b) = Some (if b then lit ''true'' else lit ''false'')"
| "str h indent rep mind (JSymbol n) = None"
| "str h indent rep mind JNull = Some (lit ''null'')"
| "str h indent rep mind (JDate t) = Some (quote (toDataURL (lit ''date'') (String_time t)))"
| "str h indent rep mind (JArray xs) =
     (let gap = mind @ indent;
          partial = map (\<lambda>x. or_null (str h indent rep gap x)) xs
      in Some (wrap 0x5b 0x5d gap mind partial))"
| "str h indent rep mind (JObject kvs) =
     (let gap = mind @ indent;
          partial =
            (case rep of
               Some entries \<Rightarrow>
                 concat (map (\<lambda>e. case e of
                                    JString k \<Rightarrow>
                                      member gap k
                                        (if k \<notin> fst ` set kvs \<and> prototype_method k then None
                                         else if k \<notin> fst ` set kvs \<and> k = lit ''__proto__''
                                           then Some (str_prototype indent entries gap)
                                         else str h indent rep gap (get_prop kvs k))
                                  | _ \<Rightarrow> []) entries)
             | None \<Rightarrow>
                 concat (map (\<lambda>kv. member gap (fst kv) (str h indent rep gap (snd kv))) kvs))
      in Some (wrap 0x7b 0x7d gap mind partial))"
  by pat_completeness auto
termination
  by (relation "measure (\<lambda>(h, indent, rep, mind, v). str_weight v)")
    (simp_all add: str_weight_element str_weight_prop str_weight_snd del: str_weight.simps)

text \<open>
  Ways in which a call does not return a value: it throws; it hands control to a
  function of the caller (\<open>UserCode\<close>), which the embedding does not follow; or it runs
  a loop whose bound is \<open>Infinity\<close> (\<open>Unbounded\<close>).
\<close>

datatype failure = Error jsstring | SyntaxError | TypeError | UserCode | Unbounded

text \<open>The replacer argument: a function, or a value of the embedding.\<close>

datatype 'n replacer = RepFunction | RepValue "'n jsvalue"

text \<open>\<open>typeof replacer.length\<close> for an object \<open>replacer\<close>.\<close>

definition typeof_length :: "'n jsvalue \<Rightarrow> jstype" where
  "typeof_length r =
     (case r of
        JArray es \<Rightarrow> T_number
      | JObject kvs \<Rightarrow> typeof (get_prop kvs (lit ''length''))
      | _ \<Rightarrow> T_undefined)"

text \<open>The condition under which \<open>stringify\<close> throws.\<close>

definition invalid_replacer :: "'n host \<Rightarrow> 'n replacer \<Rightarrow> bool" where
  "invalid_replacer h replacer =
     (case replacer of
        RepFunction \<Rightarrow> False
      | RepValue r \<Rightarrow> truthy h r \<and> (typeof r \<noteq> T_object \<or> typeof_length r \<noteq> T_number))"

text \<open>
  The indent unit; \<open>None\<close> when \<open>space\<close> is \<open>Infinity\<close> and the loop that builds it has
  no end.
\<close>

definition make_indent :: "'n host \<Rightarrow> 'n jsvalue \<Rightarrow> jsstring option" where
  "make_indent h space =
     (case space of
        JNumber x \<Rightarrow>
          (case x of
             Fin n \<Rightarrow> Some (replicate (loop_count h n) 0x20)
           | PosInf \<Rightarrow> None
           | _ \<Rightarrow> Some [])
      | JString s \<Rightarrow> Some s
      | _ \<Rightarrow> Some [])"

text \<open>
  What the loop \<open>for (i = 0; i < rep.length; i += 1)\<close> of \<open>str\<close> reads from the replacer:
  \<open>Some None\<close> when the replacer is no object (own keys are iterated instead),
  \<open>Some (Some es)\<close> for the entries it visits, \<open>None\<close> when \<open>rep.length\<close> is \<open>Infinity\<close>.
  A length that is not a number does not pass \<open>stringify\<close>'s check.
\<close>

definition rep_entries :: "'n host \<Rightarrow> 'n jsvalue \<Rightarrow> 'n jsvalue list option option" where
  "rep_entries h rep =
     (case rep of
        JArray es \<Rightarrow> Some (Some es)
      | JObject kvs \<Rightarrow>
          (case get_prop kvs (lit ''length'') of
             JNumber x \<Rightarrow>
               (case x of
                  Fin n \<Rightarrow> Some (Some (map (\<lambda>i. get_prop kvs (String_nat i)) [0..<loop_count h n]))
                | PosInf \<Rightarrow> None
                | _ \<Rightarrow> Some (Some []))
           | _ \<Rightarrow> Some (Some []))
      | JDate t \<Rightarrow> Some (Some [])
      | _ \<Rightarrow> Some None)"

text \<open>Whether \<open>str\<close> comes to an object that is not an array, where it reads \<open>rep\<close>.\<close>

fun reaches_object :: "'n jsvalue \<Rightarrow> bool" where
  "reaches_object (JObject kvs) = True"
| "reaches_object (JArray xs) = list_ex reaches_object xs"
| "reaches_object v = False"

definition stringify ::
  "'n host \<Rightarrow> 'n jsvalue \<Rightarrow> 'n replacer \<Rightarrow> 'n jsvalue \<Rightarrow> failure + jsstring option" where
  "stringify h v replacer space =
     (case make_indent h space of
        None \<Rightarrow> Inl Unbounded
      | Some indent \<Rightarrow>
          if invalid_replacer h replacer then Inl (Error (lit ''JSON.stringify''))
          else (case replacer of
                  RepFunction \<Rightarrow> Inl UserCode
                | RepValue rep \<Rightarrow>
                    (case rep_entries h rep of
                       None \<Rightarrow>
                         if reaches_object v then Inl Unbounded
                         else Inr (str h indent (Some []) [] v)
                     | Some sel \<Rightarrow> Inr (str h indent sel [] v))))"

section \<open>The host's parser\<close>

text \<open>
  \<open>JSON.parse(text, reviver)\<close> is the host's: it reads \<open>text\<close> by the JSON grammar and
  then walks the result bottom-up, replacing every property by what \<open>reviver\<close> returns
  for it. The model follows ECMA-262; of the numbers it only needs \<open>StringToNumber\<close>.
\<close>

definition is_ws :: "16 word \<Rightarrow> bool" where
  "is_ws c \<longleftrightarrow> c = 0x20 \<or> c = 0x09 \<or> c = 0x0a \<or> c = 0x0d"

definition skip_ws :: "jsstring \<Rightarrow> jsstring" where
  "skip_ws s = dropWhile is_ws s"

definition hex_value :: "16 word \<Rightarrow> nat option" where
  "hex_value c =
     (if 0x30 \<le> c \<and> c \<le> 0x39 then Some (unat c - 0x30)
      else if 0x61 \<le> c \<and> c \<le> 0x66 then Some (unat c - 0x61 + 10)
      else if 0x41 \<le> c \<and> c \<le> 0x46 then Some (unat c - 0x41 + 10)
      else None)"

definition hex4_value :: "16 word \<Rightarrow> 16 word \<Rightarrow> 16 word \<Rightarrow> 16 word \<Rightarrow> 16 word option" where
  "hex4_value a b c d =
     (case (hex_value a, hex_value b, hex_value c, hex_value d) of
        (Some x, Some y, Some z, Some w) \<Rightarrow> Some (of_nat (((x * 16 + y) * 16 + z) * 16 + w))
      | _ \<Rightarrow> None)"

definition unescape :: "16 word \<Rightarrow> 16 word option" where
  "unescape e =
     (if e = 0x22 then Some 0x22
      else if e = 0x5c then Some 0x5c
      else if e = 0x2f then Some 0x2f
      else if e = 0x62 then Some 0x08
      else if e = 0x66 then Some 0x0c
      else if e = 0x6e then Some 0x0a
      else if e = 0x72 then Some 0x0d
      else if e = 0x74 then Some 0x09
      else None)"

definition prepend :: "16 word \<Rightarrow> (jsstring \<times> jsstring) option \<Rightarrow> (jsstring \<times> jsstring) option" where
  "prepend x res = (case res of None \<Rightarrow> None | Some (s, r) \<Rightarrow> Some (x # s, r))"

text \<open>
  \<open>read_string\<close> reads a string literal behind its opening quote and returns the string
  and the rest of the input; \<open>None\<close> where the literal is malformed.
\<close>

fun read_string :: "jsstring \<Rightarrow> (jsstring \<times> jsstring) option" where
  "read_string [] = None"
| "read_string (c # cs) =
     (if c = 0x22 then Some ([], cs)
      else if c = 0x5c then
        (case cs of
           [] \<Rightarrow> None
         | e # es \<Rightarrow>
             if e = 0x75 then
               (case es of
                  a # b # c' # d # rest \<Rightarrow>
                    (case hex4_value a b c' d of
                       None \<Rightarrow> None
                     | Some x \<Rightarrow> prepend x (read_string rest))
                | _ \<Rightarrow> None)
             else
               (case unescape e of
                  None \<Rightarrow> None
                | Some x \<Rightarrow> prepend x (read_string es)))
      else if c < 0x20 then None
      else prepend c (read_string cs))"

text \<open>
  A number token: the longest run of units that can stand in a number, which must be a
  number of the grammar (after a number the grammar admits only white space, a comma, a
  closing bracket or brace, or the end).
\<close>

definition is_digit :: "16 word \<Rightarrow> bool" where
  "is_digit c \<longleftrightarrow> 0x30 \<le> c \<and> c \<le> 0x39"

definition num_char :: "16 word \<Rightarrow> bool" where
  "num_char c \<longleftrightarrow> is_digit c \<or> c = 0x2b \<or> c = 0x2d \<or> c = 0x2e \<or> c = 0x45 \<or> c = 0x65"

definition digits1 :: "jsstring \<Rightarrow> jsstring option" where
  "digits1 s = (if takeWhile is_digit s = [] then None else Some (dropWhile is_digit s))"

definition int_part :: "jsstring \<Rightarrow> jsstring option" where
  "int_part s =
     (case s of
        [] \<Rightarrow> None
      | c # cs \<Rightarrow>
          if c = 0x30 then Some cs
          else if is_digit c then Some (dropWhile is_digit cs)
          else None)"

definition frac_part :: "jsstring \<Rightarrow> jsstring option" where
  "frac_part s =
     (case s of
        [] \<Rightarrow> Some []
      | c # cs \<Rightarrow> if c = 0x2e then digits1 cs else Some s)"

definition exp_part :: "jsstring \<Rightarrow> jsstring option" where
  "exp_part s =
     (case s of
        [] \<Rightarrow> Some []
      | c # cs \<Rightarrow>
          if c = 0x45 \<or> c = 0x65 then
            (case cs of
               [] \<Rightarrow> None
             | d # ds \<Rightarrow> if d = 0x2b \<or> d = 0x2d then digits1 ds else digits1 cs)
          else Some s)"

definition json_number :: "jsstring \<Rightarrow> bool" where
  "json_number tok =
     (case int_part (case tok of [] \<Rightarrow> [] | c # cs \<Rightarrow> if c = 0x2d then cs else tok) of
        None \<Rightarrow> False
      | Some r1 \<Rightarrow>
          (case frac_part r1 of
             None \<Rightarrow> False
           | Some r2 \<Rightarrow> exp_part r2 = Some []))"

text \<open>
  \<open>CreateDataProperty\<close>, also \<open>current[key] = x\<close> on an object: an existing key keeps
  its place, a new key goes last. (The host enumerates keys that are array indices first;
  no claim depends on that order, and the list keeps the order of creation.)
\<close>

fun set_prop :: "jsstring \<Rightarrow> 'v \<Rightarrow> (jsstring \<times> 'v) list \<Rightarrow> (jsstring \<times> 'v) list" where
  "set_prop k x [] = [(k, x)]"
| "set_prop k x (p # ps) = (if fst p = k then (k, x) # ps else p # set_prop k x ps)"

definition build_object :: "(jsstring \<times> 'v) list \<Rightarrow> (jsstring \<times> 'v) list" where
  "build_object members = foldl (\<lambda>kvs (k, x). set_prop k x kvs) [] members"

lemma read_string_shorter: "read_string s = Some p \<Longrightarrow> length (snd p) < length s"
proof (induction s arbitrary: p rule: read_string.induct)
  case 1
  then show ?case by simp
next
  case (2 c cs)
  then show ?case
    by (fastforce simp: prepend_def split: if_splits list.splits option.splits)
qed

lemma read_string_length: "read_string s = Some (k, r) \<Longrightarrow> length r < length s"
  by (drule read_string_shorter) simp

lemma skip_ws_length: "skip_ws s = c # cs \<Longrightarrow> length cs < length s"
proof -
  assume "skip_ws s = c # cs"
  then have "length (c # cs) \<le> length s"
    unfolding skip_ws_def by (metis length_dropWhile_le)
  then show ?thesis by simp
qed

text \<open>
  The reader of values. \<open>read_elements\<close> reads the elements of an array up to its closing
  bracket, \<open>read_members\<close> the members of an object up to its closing brace. The test
  that a value has used up input is always passed; it is there for the termination
  proof.
\<close>

function read_value :: "'n host \<Rightarrow> jsstring \<Rightarrow> failure + 'n jsvalue \<times> jsstring"
  and read_elements :: "'n host \<Rightarrow> jsstring \<Rightarrow> failure + 'n jsvalue list \<times> jsstring"
  and read_members :: "'n host \<Rightarrow> jsstring \<Rightarrow> failure + (jsstring \<times> 'n jsvalue) list \<times> jsstring"
where
  "read_value h inp =
     (case skip_ws inp of
        [] \<Rightarrow> Inl SyntaxError
      | c # cs \<Rightarrow>
          if c = 0x5b then
            (case skip_ws cs of
               [] \<Rightarrow> Inl SyntaxError
             | d # ds \<Rightarrow>
                 if d = 0x5d then Inr (JArray [], ds)
                 else (case read_elements h cs of
                         Inl e \<Rightarrow> Inl e
                       | Inr (xs, r) \<Rightarrow> Inr (JArray xs, r)))
          else if c = 0x7b then
            (case skip_ws cs of
               [] \<Rightarrow> Inl SyntaxError
             | d # ds \<Rightarrow>
                 if d = 0x7d then Inr (JObject [], ds)
                 else (case read_members h cs of
                         Inl e \<Rightarrow> Inl e
                       | Inr (kvs, r) \<Rightarrow> Inr (JObject (build_object kvs), r)))
          else if c = 0x22 then
            (case read_string cs of
               None \<Rightarrow> Inl SyntaxError
             | Some (s, r) \<Rightarrow> Inr (JString s, r))
          else if take 4 (c # cs) = lit ''true'' then Inr (JBool True, drop 4 (c # cs))
          else if take 5 (c # cs) = lit ''false'' then Inr (JBool False, drop 5 (c # cs))
          else if take 4 (c # cs) = lit ''null'' then Inr (JNull, drop 4 (c # cs))
          else if json_number (takeWhile num_char (c # cs))
            then Inr (JNumber (StringToNumber h (takeWhile num_char (c # cs))),
                      dropWhile num_char (c # cs))
            else Inl SyntaxError)"
| "read_elements h inp =
     (case read_value h inp of
        Inl e \<Rightarrow> Inl e
      | Inr (x, rest) \<Rightarrow>
          if length rest < length inp then
            (case skip_ws rest of
               [] \<Rightarrow> Inl SyntaxError
             | c # cs \<Rightarrow>
                 if c = 0x2c then
                   (case read_elements h cs of
                      Inl e \<Rightarrow> Inl e
                    | Inr (xs, r) \<Rightarrow> Inr (x # xs, r))
                 else if c = 0x5d then Inr ([x], cs)
                 else Inl SyntaxError)
          else Inl SyntaxError)"
| "read_members h inp =
     (case skip_ws inp of
        [] \<Rightarrow> Inl SyntaxError
      | c # cs \<Rightarrow>
          if c = 0x22 then
            (case read_string cs of
               None \<Rightarrow> Inl SyntaxError
             | Some (k, r1) \<Rightarrow>
                 (case skip_ws r1 of
                    [] \<Rightarrow> Inl SyntaxError
                  | d # ds \<Rightarrow>
                      if d = 0x3a then
                        (case read_value h ds of
                           Inl e \<Rightarrow> Inl e
                         | Inr (x, rest) \<Rightarrow>
                             if length rest < length inp then
                               (case skip_ws rest of
                                  [] \<Rightarrow> Inl SyntaxError
                                | e # es \<Rightarrow>
                                    if e = 0x2c then
                                      (case read_members h es of
                                         Inl e \<Rightarrow> Inl e
                                       | Inr (kvs, r) \<Rightarrow> Inr ((k, x) # kvs, r))
                                    else if e = 0x7d then Inr ([(k, x)], es)
                                    else Inl SyntaxError)
                             else Inl SyntaxError)
                      else Inl SyntaxError))
          else Inl SyntaxError)"
  by pat_completeness auto
termination
proof (relation "measure (\<lambda>x. case x of
    Inl (h, inp) \<Rightarrow> 2 * length inp
  | Inr (Inl (h, inp)) \<Rightarrow> 2 * length inp + 1
  | Inr (Inr (h, inp)) \<Rightarrow> 2 * length inp + 1)", goal_cases)
  case 1
  show ?case by simp
next
  case 2
  then show ?case by (auto dest: skip_ws_length)
next
  case 3
  then show ?case by (auto dest: skip_ws_length)
next
  case 4
  then show ?case by simp
next
  case 5
  then show ?case by (auto dest: skip_ws_length)
next
  case 6
  then show ?case
    by (auto dest!: skip_ws_length read_string_length)
next
  case 7
  then show ?case by (auto dest: skip_ws_length)
qed

declare read_value.simps [simp del] read_elements.simps [simp del] read_members.simps [simp del]

text \<open>
  \<open>InternalizeJSONProperty\<close>: children first, in order; a child for which the reviver
  returns \<open>undefined\<close> is deleted (in an array that leaves a hole, which reads as
  \<open>undefined\<close>); then the reviver is called on the value itself. A reviver that throws
  ends the walk.
\<close>

fun internalize ::
  "(jsstring \<Rightarrow> 'n jsvalue \<Rightarrow> failure + 'n jsvalue) \<Rightarrow> jsstring \<Rightarrow> 'n jsvalue \<Rightarrow> failure + 'n jsvalue"
  and internalize_elements ::
  "(jsstring \<Rightarrow> 'n jsvalue \<Rightarrow> failure + 'n jsvalue) \<Rightarrow> nat \<Rightarrow> 'n jsvalue list \<Rightarrow> failure + 'n jsvalue list"
  and internalize_members ::
  "(jsstring \<Rightarrow> 'n jsvalue \<Rightarrow> failure + 'n jsvalue) \<Rightarrow> (jsstring \<times> 'n jsvalue) list \<Rightarrow>
     failure + (jsstring \<times> 'n jsvalue) list"
where
  "internalize reviver name (JArray xs) =
     (case internalize_elements reviver 0 xs of
        Inl e \<Rightarrow> Inl e
      | Inr xs' \<Rightarrow> reviver name (JArray xs'))"
| "internalize reviver name (JObject kvs) =
     (case internalize_members reviver kvs of
        Inl e \<Rightarrow> Inl e
      | Inr kvs' \<Rightarrow> reviver name (JObject kvs'))"
| "internalize reviver name JUndefined = reviver name JUndefined"
| "internalize reviver name JNull = reviver name JNull"
| "internalize reviver name (JBool b) = reviver name (JBool b)"
| "internalize reviver name (JNumber x) = reviver name (JNumber x)"
| "internalize reviver name (JBigInt i) = reviver name (JBigInt i)"
| "internalize reviver name (JString s) = reviver name (JString s)"
| "internalize reviver name (JSymbol n) = reviver name (JSymbol n)"
| "internalize reviver name (JDate t) = reviver name (JDate t)"
| "internalize_elements reviver i [] = Inr []"
| "internalize_elements reviver i (x # xs) =
     (case internalize reviver (String_nat i) x of
        Inl e \<Rightarrow> Inl e
      | Inr x' \<Rightarrow>
          (case internalize_elements reviver (Suc i) xs of
             Inl e \<Rightarrow> Inl e
           | Inr xs' \<Rightarrow> Inr (x' # xs')))"
| "internalize_members reviver [] = Inr []"
| "internalize_members reviver ((k, x) # kvs) =
     (case internalize reviver k x of
        Inl e \<Rightarrow> Inl e
      | Inr x' \<Rightarrow>
          (case internalize_members reviver kvs of
             Inl e \<Rightarrow> Inl e
           | Inr kvs' \<Rightarrow> Inr (if x' = JUndefined then kvs' else (k, x') # kvs')))"

definition JSON_parse ::
  "'n host \<Rightarrow> (jsstring \<Rightarrow> 'n jsvalue \<Rightarrow> failure + 'n jsvalue) \<Rightarrow> jsstring \<Rightarrow> failure + 'n jsvalue" where
  "JSON_parse h reviver text =
     (case read_value h text of
        Inl e \<Rightarrow> Inl e
      | Inr (v, rest) \<Rightarrow> if skip_ws rest = [] then internalize reviver [] v else Inl SyntaxError)"

section \<open>The decoder\<close>

text \<open>\<open>/^data:[^,]+,[^,]*$/.test(s)\<close>.\<close>

definition token_shape :: "jsstring \<Rightarrow> bool" where
  "token_shape s \<longleftrightarrow>
     take 5 s = lit ''data:'' \<and>
     takeWhile (\<lambda>c. c \<noteq> 0x2c) (drop 5 s) \<noteq> [] \<and>
     dropWhile (\<lambda>c. c \<noteq> 0x2c) (drop 5 s) \<noteq> [] \<and>
     0x2c \<notin> set (tl (dropWhile (\<lambda>c. c \<noteq> 0x2c) (drop 5 s)))"

text \<open>
  The function that \<open>parse\<close> hands to \<open>JSON.parse\<close>, for a call with no reviver and no
  plugin registered: \<open>decode\<close> is its part up to the reviver, \<open>reviver_callback\<close> the
  whole. \<open>BigInt(undefined)\<close> throws a \<open>TypeError\<close>, \<open>Number(undefined)\<close> is \<open>NaN\<close>.
\<close>

definition decode :: "'n host \<Rightarrow> 'n jsvalue \<Rightarrow> failure + 'n jsvalue" where
  "decode h v =
     (case v of
        JString s \<Rightarrow>
          if token_shape s then
            (let parsedResult = parseDataURL s in
             if tag_type parsedResult = Some (lit ''undefined'') then Inr JUndefined
             else if tag_type parsedResult = Some (lit ''number'') then
               (if tag_value parsedResult = Some (lit ''NaN'') then Inr (JNumber NaN)
                else if tag_value parsedResult = Some (lit ''Infinity'') then Inr (JNumber PosInf)
                else if tag_value parsedResult = Some (lit ''-Infinity'') then Inr (JNumber NegInf)
                else Inr v)
             else if tag_type parsedResult = Some (lit ''bigint'') then
               (case tag_value parsedResult of
                  None \<Rightarrow> Inl TypeError
                | Some p \<Rightarrow>
                    (case StringToBigInt h p of
                       None \<Rightarrow> Inl SyntaxError
                     | Some i \<Rightarrow> Inr (JBigInt i)))
             else if tag_type parsedResult = Some (lit ''date'') then
               Inr (JDate (TimeClip h (case tag_value parsedResult of
                                          None \<Rightarrow> NaN
                                        | Some p \<Rightarrow> StringToNumber h p)))
             else Inr v)
          else Inr v
      | _ \<Rightarrow> Inr v)"

definition reviver_callback :: "'n host \<Rightarrow> jsstring \<Rightarrow> 'n jsvalue \<Rightarrow> failure + 'n jsvalue" where
  "reviver_callback h key v =
     (case decode h v of
        Inl e \<Rightarrow> Inl e
      | Inr result \<Rightarrow> Inr (if result = JUndefined then undefinedSymbol else result))"

text \<open>
  The own enumerable properties of a value as \<open>Object.keys\<close> lists them: those of an
  object, the indices of an array, the indices of a string; other values have none.
\<close>

fun fields :: "'n jsvalue \<Rightarrow> (jsstring \<times> 'n jsvalue) list" where
  "fields (JObject kvs) = kvs"
| "fields (JArray xs) = zip (map String_nat [0..<length xs]) xs"
| "fields (JString s) = zip (map String_nat [0..<length s]) (map (\<lambda>c. JString [c]) s)"
| "fields v = []"

text \<open>\<open>Object.keys(v)\<close> throws a \<open>TypeError\<close> for \<open>null\<close> and \<open>undefined\<close>.\<close>

definition Object_keys :: "'n jsvalue \<Rightarrow> failure + jsstring list" where
  "Object_keys v = (if v = JUndefined \<or> v = JNull then Inl TypeError else Inr (map fst (fields v)))"

definition get_field :: "'n jsvalue \<Rightarrow> jsstring \<Rightarrow> 'n jsvalue" where
  "get_field v k = get_prop (fields v) k"

text \<open>
  \<open>current[key] = x\<close>, for a key that \<open>Object.keys(current)\<close> has listed; the decoder
  makes no other assignment.
\<close>

fun set_field :: "'n jsvalue \<Rightarrow> jsstring \<Rightarrow> 'n jsvalue \<Rightarrow> 'n jsvalue" where
  "set_field (JObject kvs) k x = JObject (set_prop k x kvs)"
| "set_field (JArray xs) k x = JArray (map snd (set_prop k x (fields (JArray xs))))"
| "set_field v k x = v"

text \<open>\<open>value && typeof value === 'object'\<close>.\<close>

definition is_object :: "'n jsvalue \<Rightarrow> bool" where
  "is_object v \<longleftrightarrow> typeof v = T_object \<and> v \<noteq> JNull"

text \<open>
  The result of \<open>JSON.parse\<close> is a tree of fresh objects, so a reference to one of them
  is the path of keys that leads to it from the root (\<open>json\<close>), and an assignment through
  the reference is an update of the root at that path.
\<close>

fun get_at :: "'n jsvalue \<Rightarrow> jsstring list \<Rightarrow> 'n jsvalue" where
  "get_at v [] = v"
| "get_at v (k # ks) = get_at (get_field v k) ks"

fun set_at :: "'n jsvalue \<Rightarrow> jsstring list \<Rightarrow> 'n jsvalue \<Rightarrow> 'n jsvalue" where
  "set_at v [] x = x"
| "set_at v (k # ks) x = set_field v k (set_at (get_field v k) ks x)"

text \<open>The \<open>for\<close> loop over \<open>keys\<close>, for \<open>current\<close> at the path \<open>p\<close>.\<close>

fun sweep_keys ::
  "jsstring list \<Rightarrow> jsstring list \<Rightarrow> 'n jsvalue \<times> jsstring list list \<Rightarrow> 'n jsvalue \<times> jsstring list list" where
  "sweep_keys p [] (json, queue) = (json, queue)"
| "sweep_keys p (key # keys) (json, queue) =
     (let v = get_at json (p @ [key]) in
      if v = undefinedSymbol then sweep_keys p keys (set_at json (p @ [key]) JUndefined, queue)
      else if is_object v then sweep_keys p keys (json, queue @ [p @ [key]])
      else sweep_keys p keys (json, queue))"

text \<open>The \<open>while\<close> loop over the queue; \<open>None\<close> when it does not end.\<close>

partial_function (option) sweep_loop ::
  "'n jsvalue \<Rightarrow> jsstring list list \<Rightarrow> (failure + 'n jsvalue) option" where
  "sweep_loop json queue =
     (case queue of
        [] \<Rightarrow> Some (Inr json)
      | current # rest \<Rightarrow>
          (case Object_keys (get_at json current) of
             Inl e \<Rightarrow> Some (Inl e)
           | Inr keys \<Rightarrow>
               (case sweep_keys current keys (json, queue) of
                  (json', queue') \<Rightarrow> sweep_loop json' (tl queue'))))"

declare sweep_loop.simps [code]

text \<open>\<open>parse(text)\<close>, with no reviver and no plugin registered.\<close>

definition parse :: "'n host \<Rightarrow> jsstring \<Rightarrow> (failure + 'n jsvalue) option" where
  "parse h text =
     (case JSON_parse h (reviver_callback h) text of
        Inl e \<Rightarrow> Some (Inl e)
      | Inr json \<Rightarrow> sweep_loop json [[]])"

section \<open>Vocabulary of the claims\<close>

definition after_first :: "16 word \<Rightarrow> jsstring \<Rightarrow> jsstring" where
  "after_first sep s = tl (dropWhile (\<lambda>c. c \<noteq> sep) s)"

fun string_entries :: "'n jsvalue list \<Rightarrow> jsstring list" where
  "string_entries [] = []"
| "string_entries (JString k # es) = k # string_entries es"
| "string_entries (e # es) = string_entries es"


definition recognized_type :: "jsstring option \<Rightarrow> bool" where
  "recognized_type t \<longleftrightarrow>
     t = Some (lit ''undefined'') \<or> t = Some (lit ''number'') \<or>
     t = Some (lit ''bigint'') \<or> t = Some (lit ''date'')"

text \<open>
  The parts of a string of the shape \<open>data:<type>,<value>\<close>: \<open>type_field\<close> is \<open><type>\<close>,
  the text between \<open>data:\<close> and the first comma, \<open>type_head\<close> is \<open><type>\<close> up to its
  first colon, and \<open>value_field\<close> is the text after the first comma.
\<close>

definition type_field :: "jsstring \<Rightarrow> jsstring" where
  "type_field s = takeWhile (\<lambda>c. c \<noteq> 0x2c) (drop 5 s)"

definition type_head :: "jsstring \<Rightarrow> jsstring" where
  "type_head s = takeWhile (\<lambda>c. c \<noteq> 0x3a) (type_field s)"

definition value_field :: "jsstring \<Rightarrow> jsstring" where
  "value_field s = after_first 0x2c s"

text \<open>
  \<open>str(k, value)\<close> for an entry \<open>k\<close> of the inclusion list \<open>es\<close> on an object with
  the properties \<open>kvs\<close>, where \<open>gap\<close> is the indentation inside the object.
\<close>

definition listed_property ::
  "'n host \<Rightarrow> jsstring \<Rightarrow> 'n jsvalue list \<Rightarrow> jsstring \<Rightarrow> (jsstring \<times> 'n jsvalue) list \<Rightarrow> jsstring \<Rightarrow>
     jsstring option" where
  "listed_property h indent es gap kvs k =
     (if k \<notin> fst ` set kvs \<and> prototype_method k then None
      else if k \<notin> fst ` set kvs \<and> k = lit ''__proto__'' then Some (str_prototype indent es gap)
      else str h indent (Some es) gap (get_prop kvs k))"

text \<open>
  A host for the witnesses: its finite numbers are the integers, written in decimal.
\<close>

definition read_nat :: "jsstring \<Rightarrow> nat option" where
  "read_nat s =
     (if s \<noteq> [] \<and> list_all is_digit s
      then Some (foldl (\<lambda>a c. 10 * a + (unat c - 0x30)) 0 s)
      else None)"

definition read_int :: "jsstring \<Rightarrow> int option" where
  "read_int s =
     (case s of
        [] \<Rightarrow> None
      | c # cs \<Rightarrow>
          if c = 0x2d then map_option (\<lambda>n. - int n) (read_nat cs)
          else map_option int (read_nat s))"

definition host0 :: "int host" where
  "host0 = \<lparr> NumberToString = String_int,
     StringToNumber = (\<lambda>s. case read_int s of None \<Rightarrow> NaN | Some i \<Rightarrow> Fin i),
     StringToBigInt = read_int,
     TimeClip = (\<lambda>x. case x of
                        Fin i \<Rightarrow> if \<bar>i\<bar> \<le> 8640000000000000 then Some i else None
                      | _ \<Rightarrow> None),
     loop_count = nat,
     is_zero = (\<lambda>n. n = 0) \<rparr>"

section \<open>Notions for the sweep\<close>

text \<open>
  What the loop over the queue computes, said without the queue: \<open>restore\<close> puts
  \<open>undefined\<close> into every field of every object and array of a tree that holds the
  sentinel, and \<open>sentinel_free\<close> says that no field of a tree holds it.
\<close>

fun restore :: "'n jsvalue \<Rightarrow> 'n jsvalue" where
  "restore (JObject kvs) =
     JObject (map (\<lambda>kv. (fst kv, if snd kv = undefinedSymbol then JUndefined else restore (snd kv))) kvs)"
| "restore (JArray xs) = JArray (map (\<lambda>x. if x = undefinedSymbol then JUndefined else restore x) xs)"
| "restore v = v"

fun sentinel_free :: "'n jsvalue \<Rightarrow> bool" where
  "sentinel_free (JObject kvs) \<longleftrightarrow>
     (\<forall>kv \<in> set kvs. snd kv \<noteq> undefinedSymbol \<and> sentinel_free (snd kv))"
| "sentinel_free (JArray xs) \<longleftrightarrow> (\<forall>x \<in> set xs. x \<noteq> undefinedSymbol \<and> sentinel_free x)"
| "sentinel_free v \<longleftrightarrow> True"

text \<open>
  The trees that \<open>JSON.parse\<close> builds: the keys of an object are pairwise different.
\<close>

fun wf_value :: "'n jsvalue \<Rightarrow> bool" where
  "wf_value (JObject kvs) \<longleftrightarrow> distinct (map fst kvs) \<and> (\<forall>kv \<in> set kvs. wf_value (snd kv))"
| "wf_value (JArray xs) \<longleftrightarrow> (\<forall>x \<in> set xs. wf_value x)"
| "wf_value v \<longleftrightarrow> True"

text \<open>
  The rest are the notions of the proof. \<open>dec_value\<close> reads a decimal numeral,
  \<open>container\<close> holds of objects and arrays, \<open>with_fields\<close> replaces the fields of one,
  \<open>valid_path\<close> says that a path of keys leads through containers, and \<open>node_loop\<close> is
  the \<open>for\<close> loop on the node itself, with the keys it pushes; \<open>restore1\<close> is its effect
  on the node, \<open>pushed\<close> the keys.
\<close>

definition dec_value :: "jsstring \<Rightarrow> nat" where
  "dec_value s = foldl (\<lambda>a c. 10 * a + (unat c - 0x30)) 0 s"

definition container :: "'n jsvalue \<Rightarrow> bool" where
  "container v \<longleftrightarrow> (case v of JObject kvs \<Rightarrow> True | JArray xs \<Rightarrow> True | _ \<Rightarrow> False)"

fun with_fields :: "'n jsvalue \<Rightarrow> (jsstring \<times> 'n jsvalue) list \<Rightarrow> 'n jsvalue" where
  "with_fields (JObject kvs) kvs' = JObject kvs'"
| "with_fields (JArray xs) kvs' = JArray (map snd kvs')"
| "with_fields v kvs' = v"

fun valid_path :: "'n jsvalue \<Rightarrow> jsstring list \<Rightarrow> bool" where
  "valid_path v [] \<longleftrightarrow> True"
| "valid_path v (k # ks) \<longleftrightarrow> container v \<and> k \<in> fst ` set (fields v) \<and> valid_path (get_field v k) ks"

definition clean :: "'n jsvalue \<Rightarrow> 'n jsvalue" where
  "clean y = (if y = undefinedSymbol then JUndefined else y)"

fun restore1 :: "'n jsvalue \<Rightarrow> 'n jsvalue" where
  "restore1 (JObject kvs) = JObject (map (\<lambda>kv. (fst kv, clean (snd kv))) kvs)"
| "restore1 (JArray xs) = JArray (map clean xs)"
| "restore1 v = v"

fun node_loop :: "jsstring list \<Rightarrow> 'n jsvalue \<Rightarrow> 'n jsvalue \<times> jsstring list" where
  "node_loop [] c = (c, [])"
| "node_loop (k # ks) c =
     (let v = get_field c k in
      if v = undefinedSymbol then node_loop ks (set_field c k JUndefined)
      else if is_object v then (case node_loop ks c of (c', ps) \<Rightarrow> (c', k # ps))
      else node_loop ks c)"

definition keys_distinct :: "'n jsvalue \<Rightarrow> bool" where
  "keys_distinct c \<longleftrightarrow> distinct (map fst (fields c))"

definition rf :: "'n jsvalue \<Rightarrow> 'n jsvalue" where
  "rf x = (if x = undefinedSymbol then JUndefined else restore x)"

definition pushed :: "'n jsvalue \<Rightarrow> jsstring list" where
  "pushed c = map fst (filter (\<lambda>kv. is_object (snd kv)) (fields c))"

text \<open>
  \<open>weight\<close> counts the nodes of a tree; the sum of the weights under the queued paths
  goes down with every turn of the loop. \<open>covered v Q\<close>: every sentinel left in \<open>v\<close> is
  a field of a node at or below a path of \<open>Q\<close>.
\<close>

fun weight :: "'n jsvalue \<Rightarrow> nat" where
  "weight (JObject kvs) = Suc (sum_list (map (\<lambda>kv. weight (snd kv)) kvs))"
| "weight (JArray xs) = Suc (sum_list (map weight xs))"
| "weight v = 1"

lemma size_fields:
  "container v \<Longrightarrow> kv \<in> set (fields v) \<Longrightarrow> size (snd kv) < size v"
proof (cases v)
  case (JArray xs)
  assume "kv \<in> set (fields v)"
  with JArray have "snd kv \<in> set xs"
    by (cases kv) (auto dest: set_zip_rightD)
  then have "size (snd kv) < Suc (size_list size xs)"
    by (simp add: less_Suc_eq_le size_list_estimation')
  with JArray show ?thesis by simp
next
  case (JObject kvs)
  assume "kv \<in> set (fields v)"
  with JObject have "kv \<in> set kvs" by simp
  then have "size (snd kv) < Suc (size_list (size_prod (\<lambda>_. 0) size) kvs)"
    by (induction kvs) auto
  with JObject show ?thesis by simp
qed (simp_all add: container_def)

function covered :: "'n jsvalue \<Rightarrow> jsstring list set \<Rightarrow> bool" where
  "covered v Q \<longleftrightarrow>
     [] \<in> Q \<or>
     (\<forall>kv \<in> set (if container v then fields v else []).
        snd kv \<noteq> undefinedSymbol \<and> covered (snd kv) {r. fst kv # r \<in> Q})"
  by pat_completeness auto
termination
  by (relation "measure (\<lambda>(v, Q). size v)") (auto simp: size_fields split: if_splits)

declare covered.simps [simp del]

text \<open>
  The values that the reader of the host returns: no \<open>undefined\<close>, big integer, symbol
  or date, and the keys of an object pairwise different.
\<close>

fun json_value :: "'n jsvalue \<Rightarrow> bool" where
  "json_value JNull \<longleftrightarrow> True"
| "json_value (JBool b) \<longleftrightarrow> True"
| "json_value (JNumber x) \<longleftrightarrow> True"
| "json_value (JString s) \<longleftrightarrow> True"
| "json_value (JArray xs) \<longleftrightarrow> (\<forall>x \<in> set xs. json_value x)"
| "json_value (JObject kvs) \<longleftrightarrow> distinct (map fst kvs) \<and> (\<forall>kv \<in> set kvs. json_value (snd kv))"
| "json_value v \<longleftrightarrow> False"

section \<open>Notions for the round trip\<close>

text \<open>
  The values that come back from \<open>parse (stringify v)\<close>: no symbol; object keys pairwise
  different; every string one that the decoder returns as it is (so not a token that
  it recognizes); and the host's conversions read back what they write: the text of a
  finite number is a number of the JSON grammar and \<open>StringToNumber\<close> reads it as that
  number, \<open>StringToBigInt\<close> reads the numeral of a big integer as that integer, and a
  time value comes back from its numeral through \<open>StringToNumber\<close> and \<open>TimeClip\<close>.
\<close>

fun round_trip_value :: "'n host \<Rightarrow> 'n jsvalue \<Rightarrow> bool" where
  "round_trip_value h (JNumber x) \<longleftrightarrow>
     (case x of
        Fin n \<Rightarrow> json_number (NumberToString h n) \<and> StringToNumber h (NumberToString h n) = Fin n
      | _ \<Rightarrow> True)"
| "round_trip_value h (JBigInt i) \<longleftrightarrow> StringToBigInt h (String_int i) = Some i"
| "round_trip_value h (JString s) \<longleftrightarrow> decode h (JString s) = Inr (JString s)"
| "round_trip_value h (JSymbol n) \<longleftrightarrow> False"
| "round_trip_value h (JDate t) \<longleftrightarrow> TimeClip h (StringToNumber h (String_time t)) = t"
| "round_trip_value h (JArray xs) \<longleftrightarrow> (\<forall>x \<in> set xs. round_trip_value h x)"
| "round_trip_value h (JObject kvs) \<longleftrightarrow>
     distinct (map fst kvs) \<and> (\<forall>kv \<in> set kvs. round_trip_value h (snd kv))"
| "round_trip_value h v \<longleftrightarrow> True"

text \<open>
  The notions of the proof. \<open>plain h v\<close> is the tree that the parser of the host reads
  from the text of \<open>v\<close>, with a token string for every value of an extended type, and
  \<open>mark v\<close> the tree after the walk, with the sentinel for every \<open>undefined\<close>. \<open>enc h v\<close>
  is the compact text of \<open>v\<close> as an array element, \<open>member_text\<close> that of a member,
  \<open>body s\<close> what \<open>quote s\<close> puts between the quotes. A text is \<open>delimited\<close> when it
  cannot continue a number token, and \<open>starts_value\<close> when it starts with neither white
  space nor a closing bracket or brace. \<open>good h v\<close> collects what the induction needs.
\<close>

fun plain :: "'n host \<Rightarrow> 'n jsvalue \<Rightarrow> 'n jsvalue" where
  "plain h JUndefined = JString (toDataURL (lit ''undefined'') [])"
| "plain h (JNumber x) =
     (case x of
        NaN \<Rightarrow> JString (toDataURL (lit ''number'') (lit ''NaN''))
      | PosInf \<Rightarrow> JString (toDataURL (lit ''number'') (lit ''Infinity''))
      | NegInf \<Rightarrow> JString (toDataURL (lit ''number'') (lit ''-Infinity''))
      | Fin n \<Rightarrow> JNumber (StringToNumber h (NumberToString h n)))"
| "plain h (JBigInt i) = JString (toDataURL (lit ''bigint'') (String_int i))"
| "plain h (JDate t) = JString (toDataURL (lit ''date'') (String_time t))"
| "plain h (JArray xs) = JArray (map (plain h) xs)"
| "plain h (JObject kvs) = JObject (map (\<lambda>kv. (fst kv, plain h (snd kv))) kvs)"
| "plain h v = v"

fun mark :: "'n jsvalue \<Rightarrow> 'n jsvalue" where
  "mark JUndefined = undefinedSymbol"
| "mark (JArray xs) = JArray (map mark xs)"
| "mark (JObject kvs) = JObject (map (\<lambda>kv. (fst kv, mark (snd kv))) kvs)"
| "mark v = v"

definition body :: "jsstring \<Rightarrow> jsstring" where
  "body s = concat (map (\<lambda>c. if rx_escapable c then escape_unit c else [c]) s)"

definition enc :: "'n host \<Rightarrow> 'n jsvalue \<Rightarrow> jsstring" where
  "enc h v = or_null (str h [] None [] v)"

definition member_text :: "'n host \<Rightarrow> jsstring \<times> 'n jsvalue \<Rightarrow> jsstring" where
  "member_text h kv = quote (fst kv) @ 0x3a # enc h (snd kv)"

definition delimited :: "jsstring \<Rightarrow> bool" where
  "delimited rest \<longleftrightarrow> (case rest of [] \<Rightarrow> True | c # cs \<Rightarrow> \<not> num_char c)"

definition starts_value :: "jsstring \<Rightarrow> bool" where
  "starts_value t \<longleftrightarrow> (case t of [] \<Rightarrow> False | c # cs \<Rightarrow> \<not> is_ws c \<and> c \<noteq> 0x5d \<and> c \<noteq> 0x7d)"

definition good :: "'n host \<Rightarrow> 'n jsvalue \<Rightarrow> bool" where
  "good h v \<longleftrightarrow>
     str h [] None [] v = Some (enc h v) \<and> starts_value (enc h v) \<and>
     (\<forall>rest. delimited rest \<longrightarrow> read_value h (enc h v @ rest) = Inr (plain h v, rest))"

section \<open>The native functions of the host\<close>


















section \<open>Notions for the comparison with the native functions\<close>







section \<open>The quoting function\<close>

lemma hex4:
  assumes "n < 65536"
  shows "slice_last 4 (lit ''0000'' @ toString_radix 16 n) =
     [digit_char (n div 4096), digit_char (n div 256 mod 16), digit_char (n div 16 mod 16), digit_char (n mod 16)]"
proof -
  consider "n < 16" | "16 \<le> n" "n < 256" | "256 \<le> n" "n < 4096" | "4096 \<le> n"
    by linarith
  then show ?thesis
  proof cases
    case 1
    then show ?thesis
      by (simp add: toString_radix.simps [of 16 n] slice_last_def lit_def digit_char_def)
  next
    case 2
    then have "n div 16 < 16" by simp
    with 2 show ?thesis
      by (simp add: toString_radix.simps [of 16 n] toString_radix.simps [of 16 "n div 16"]
          slice_last_def lit_def digit_char_def)
  next
    case 3
    then have a: "\<not> n div 16 < 16" "n div 16 div 16 < 16" "n div 16 div 16 = n div 256"
      by (simp_all add: div_mult2_eq [symmetric])
    with 3 show ?thesis
      by (simp add: toString_radix.simps [of 16 n] toString_radix.simps [of 16 "n div 16"]
          toString_radix.simps [of 16 "n div 256"]
          slice_last_def lit_def digit_char_def)
  next
    case 4
    with assms have a: "\<not> n div 16 < 16" "\<not> n div 256 < 16" "n div 4096 < 16"
      "n div 16 div 16 = n div 256" "n div 256 div 16 = n div 4096"
      by (simp_all add: div_mult2_eq [symmetric])
    with 4 show ?thesis
      by (simp add: toString_radix.simps [of 16 n] toString_radix.simps [of 16 "n div 16"]
          toString_radix.simps [of 16 "n div 256"] toString_radix.simps [of 16 "n div 4096"]
          slice_last_def lit_def)
  qed
qed

lemma quote_concat:
  "quote s = [0x22] @ concat (map (\<lambda>c. if rx_escapable c then escape_unit c else [c]) s) @ [0x22]"
proof (cases "list_ex rx_escapable s")
  case True
  then show ?thesis by (simp add: quote_def replace_escapable_def)
next
  case False
  then have "concat (map (\<lambda>c. if rx_escapable c then escape_unit c else [c]) s) = s"
    by (induction s) simp_all
  with False show ?thesis by (simp add: quote_def)
qed

lemma escape_unit_hex:
  assumes "meta c = None"
  shows "escape_unit c = [0x5c, 0x75, digit_char (unat c div 4096), digit_char (unat c div 256 mod 16),
      digit_char (unat c div 16 mod 16), digit_char (unat c mod 16)]"
proof -
  have "unat c < 65536"
    using unsigned_less [of c, where 'a = nat] by simp
  with assms show ?thesis by (simp add: escape_unit_def hex4)
qed

text \<open>
  Claim C5. For every string \<open>s\<close> and unit \<open>c\<close>: \<open>quote s\<close> is \<open>s\<close> between two
  double quotes with every unit of the escaped class replaced by its escape and every
  other unit kept, so a string with no unit of the class is only wrapped. The class is
  the backslash, the double quote, the C0 range \<open>0x00-0x1f\<close>, the C1 range
  \<open>0x80-0x9f\<close>, and a fixed further set (\<open>0x7f\<close>, \<open>0xad\<close>, \<open>0x600-0x604\<close>, \<open>0x70f\<close>,
  \<open>0x17b4\<close>, \<open>0x17b5\<close>, \<open>0x200c-0x200f\<close>, \<open>0x2028-0x202f\<close>, \<open>0x2060-0x206f\<close>,
  \<open>0xfeff\<close>, \<open>0xfff0-0xffff\<close>). Backspace, tab, newline, form feed, carriage return,
  double quote and backslash get their two-character escapes; every other unit gets
  \<open>\u\<close> and the four lower-case hexadecimal digits of its code. And
  \<open>stringify("a\nb\"c")\<close> is \<open>"a\nb\"c"\<close> with the two-character escapes.
\<close>

theorem quote_escapes:
  "quote s = [0x22] @ concat (map (\<lambda>c. if rx_escapable c then escape_unit c else [c]) s) @ [0x22]
   \<and> (\<not> list_ex rx_escapable s \<longrightarrow> quote s = [0x22] @ s @ [0x22])
   \<and> (rx_escapable c \<longleftrightarrow>
        c = 0x5c \<or> c = 0x22 \<or> c \<le> 0x1f \<or> (0x80 \<le> c \<and> c \<le> 0x9f) \<or>
        c \<in> {0x7f, 0xad, 0x70f, 0x17b4, 0x17b5, 0xfeff} \<or> (0x600 \<le> c \<and> c \<le> 0x604) \<or>
        (0x200c \<le> c \<and> c \<le> 0x200f) \<or> (0x2028 \<le> c \<and> c \<le> 0x202f) \<or>
        (0x2060 \<le> c \<and> c \<le> 0x206f) \<or> 0xfff0 \<le> c)
   \<and> escape_unit 0x08 = [0x5c, 0x62] \<and> escape_unit 0x09 = [0x5c, 0x74]
   \<and> escape_unit 0x0a = [0x5c, 0x6e] \<and> escape_unit 0x0c = [0x5c, 0x66]
   \<and> escape_unit 0x0d = [0x5c, 0x72] \<and> escape_unit 0x22 = [0x5c, 0x22]
   \<and> escape_unit 0x5c = [0x5c, 0x5c]
   \<and> (c \<notin> {0x08, 0x09, 0x0a, 0x0c, 0x0d, 0x22, 0x5c} \<longrightarrow>
        escape_unit c = [0x5c, 0x75, digit_char (unat c div 4096), digit_char (unat c div 256 mod 16),
          digit_char (unat c div 16 mod 16), digit_char (unat c mod 16)])
   \<and> stringify h (JString [0x61, 0x0a, 0x62, 0x22, 0x63]) (RepValue JUndefined) JUndefined =
        Inr (Some [0x22, 0x61, 0x5c, 0x6e, 0x62, 0x5c, 0x22, 0x63, 0x22])"
proof -
  have 1: "\<not> list_ex rx_escapable s \<longrightarrow> quote s = [0x22] @ s @ [0x22]"
    by (simp add: quote_def)
  have 2: "rx_escapable c \<longleftrightarrow>
        c = 0x5c \<or> c = 0x22 \<or> c \<le> 0x1f \<or> (0x80 \<le> c \<and> c \<le> 0x9f) \<or>
        c \<in> {0x7f, 0xad, 0x70f, 0x17b4, 0x17b5, 0xfeff} \<or> (0x600 \<le> c \<and> c \<le> 0x604) \<or>
        (0x200c \<le> c \<and> c \<le> 0x200f) \<or> (0x2028 \<le> c \<and> c \<le> 0x202f) \<or>
        (0x2060 \<le> c \<and> c \<le> 0x206f) \<or> 0xfff0 \<le> c"
  proof -
    have "(0x7f \<le> c \<and> c \<le> 0x9f) \<longleftrightarrow> c = 0x7f \<or> (0x80 \<le> c \<and> c \<le> 0x9f)"
      by (simp add: word_le_nat_alt word_unat_eq_iff) arith
    then show ?thesis unfolding rx_escapable_def by auto
  qed
  have 3: "escape_unit 0x08 = [0x5c, 0x62]" "escape_unit 0x09 = [0x5c, 0x74]"
    "escape_unit 0x0a = [0x5c, 0x6e]" "escape_unit 0x0c = [0x5c, 0x66]"
    "escape_unit 0x0d = [0x5c, 0x72]" "escape_unit 0x22 = [0x5c, 0x22]"
    "escape_unit 0x5c = [0x5c, 0x5c]"
    by (simp_all add: escape_unit_def meta_def)
  have 4: "c \<notin> {0x08, 0x09, 0x0a, 0x0c, 0x0d, 0x22, 0x5c} \<longrightarrow>
        escape_unit c = [0x5c, 0x75, digit_char (unat c div 4096), digit_char (unat c div 256 mod 16),
          digit_char (unat c div 16 mod 16), digit_char (unat c mod 16)]"
    by (auto intro!: escape_unit_hex simp: meta_def)
  have 5: "stringify h (JString [0x61, 0x0a, 0x62, 0x22, 0x63]) (RepValue JUndefined) JUndefined =
        Inr (Some [0x22, 0x61, 0x5c, 0x6e, 0x62, 0x5c, 0x22, 0x63, 0x22])"
    by (simp add: stringify_def make_indent_def invalid_replacer_def rep_entries_def quote_def
        replace_escapable_def rx_escapable_def escape_unit_def meta_def)
  from quote_concat 1 2 3 4 5 show ?thesis by blast
qed

theorem quote_escapes_witness:
  \<open>\<not> list_ex rx_escapable (lit ''abc'') \<and> quote (lit ''abc'') = lit ''"abc"''
   \<and> rx_escapable 0x0a \<and> escape_unit 0x0a = [0x5c, 0x6e]
   \<and> rx_escapable 0x2028 \<and> (0x2028 :: 16 word) \<notin> {0x08, 0x09, 0x0a, 0x0c, 0x0d, 0x22, 0x5c}
   \<and> escape_unit 0x2028 = [0x5c, 0x75] @ lit ''2028''
   \<and> quote [0x61, 0x2028, 0x0a] = [0x22, 0x61, 0x5c, 0x75] @ lit ''2028'' @ [0x5c, 0x6e, 0x22]\<close>
  using quote_escapes [of "lit ''abc''" "0x0a" host0]
    quote_escapes [of "[0x61, 0x2028, 0x0a]" "0x2028" host0]
  by (simp add: lit_def rx_escapable_def digit_char_def)

section \<open>Decoding a token\<close>

lemma split_unfold:
  "split sep s = takeWhile (\<lambda>c. c \<noteq> sep) s #
     (if sep \<in> set s then split sep (after_first sep s) else [])"
  by (induction s) (auto simp: after_first_def split: list.splits)

lemma split_length: "0 < length (split sep s)"
  by (subst split_unfold) simp

lemma element_split_0: "element (split sep s) 0 = Some (takeWhile (\<lambda>c. c \<noteq> sep) s)"
  by (subst split_unfold) (simp add: element_def)

lemma element_split_1:
  "element (split sep s) (Suc 0) =
     (if sep \<in> set s then Some (takeWhile (\<lambda>c. c \<noteq> sep) (after_first sep s)) else None)"
proof (cases "sep \<in> set s")
  case True
  obtain rest where "split sep (after_first sep s) = takeWhile (\<lambda>c. c \<noteq> sep) (after_first sep s) # rest"
    using split_unfold [of sep "after_first sep s"] by blast
  with True split_unfold [of sep s] show ?thesis
    by (simp add: element_def)
next
  case False
  with split_unfold [of sep s] show ?thesis
    by (simp add: element_def)
qed

text \<open>
  Claim C3, as amended. \<open>parseDataURL\<close> splits at every separator and keeps the first
  two segments: the value component is the segment between the first and the second
  comma, which is the entire remainder after the first comma exactly when that remainder
  holds no further comma, and it is \<open>undefined\<close> when the text has no comma. The type
  component is the segment between the first and the second colon of the text before
  the first comma.
\<close>

theorem parseDataURL_segments:
  "tag_value (parseDataURL text) =
     (if 0x2c \<in> set text then Some (takeWhile (\<lambda>c. c \<noteq> 0x2c) (after_first 0x2c text)) else None)
   \<and> (0x2c \<in> set text \<and> 0x2c \<notin> set (after_first 0x2c text) \<longrightarrow>
        tag_value (parseDataURL text) = Some (after_first 0x2c text))
   \<and> tag_type (parseDataURL text) =
       (if 0x3a \<in> set (takeWhile (\<lambda>c. c \<noteq> 0x2c) text)
        then Some (takeWhile (\<lambda>c. c \<noteq> 0x3a) (after_first 0x3a (takeWhile (\<lambda>c. c \<noteq> 0x2c) text)))
        else None)"
  by (auto simp: parseDataURL_def Let_def element_split_0 element_split_1)

theorem parseDataURL_segments_witness:
  "(0x2c :: 16 word) \<in> set (lit ''data:date,12'') \<and> 0x2c \<notin> set (after_first 0x2c (lit ''data:date,12''))
   \<and> parseDataURL (lit ''data:date,12'') = \<lparr> tag_type = Some (lit ''date''), tag_value = Some (lit ''12'') \<rparr>"
  using parseDataURL_segments [of "lit ''data:date,12''"]
  by (simp add: lit_def after_first_def)

text \<open>
  The claim as stated fails: for \<open>data:x,a,b\<close> the remainder after the first comma is
  \<open>a,b\<close>, and the decoded value is \<open>a\<close>.
\<close>

theorem parseDataURL_remainder_counterexample:
  "after_first 0x2c (lit ''data:x,a,b'') = lit ''a,b''
   \<and> tag_value (parseDataURL (lit ''data:x,a,b'')) = Some (lit ''a'')
   \<and> tag_value (parseDataURL (lit ''data:x,a,b'')) \<noteq> Some (after_first 0x2c (lit ''data:x,a,b''))"
  by (simp add: parseDataURL_def Let_def element_def after_first_def lit_def)


section \<open>The replacer argument\<close>





section \<open>The inclusion list\<close>

lemma concat_string_entries:
  "concat (map (\<lambda>e. case e of JString k \<Rightarrow> f k | _ \<Rightarrow> []) es) = concat (map f (string_entries es))"
  by (induction es rule: string_entries.induct) simp_all

lemma concat_member_all:
  assumes "\<forall>k \<in> set ks. \<exists>t. g k = Some t \<and> t \<noteq> []"
  shows "concat (map (\<lambda>k. member gap k (g k)) ks) =
     map (\<lambda>k. quote k @ (if gap \<noteq> [] then lit '': '' else lit '':'') @ the (g k)) ks"
  using assms by (induction ks) (auto simp: member_def)

text \<open>
  Claim C4, as amended. On an object node with an inclusion list, \<open>str\<close> goes through
  the string entries of the list in the order given and ignores the other entries and
  the object's own key order; every occurrence of a string entry whose property encodes
  to a text adds one output field, so an entry that occurs twice is emitted twice. The
  property is read as \<open>value[k]\<close>: an entry that the object does not own and that names a
  method of \<open>Object.prototype\<close> reads as a function and adds no field.
  \<open>stringify({a:1,b:2,c:3}, ['c','a'])\<close> is \<open>{"c":3,"a":1}\<close> (the witness).
\<close>

theorem inclusion_list:
  "str h indent (Some es) mind (JObject kvs) =
     Some (wrap 0x7b 0x7d (mind @ indent) mind
       (concat (map (\<lambda>k. member (mind @ indent) k (listed_property h indent es (mind @ indent) kvs k))
          (string_entries es))))
   \<and> ((\<forall>k \<in> set (string_entries es).
          \<exists>t. listed_property h indent es (mind @ indent) kvs k = Some t \<and> t \<noteq> []) \<longrightarrow>
        str h indent (Some es) mind (JObject kvs) =
          Some (wrap 0x7b 0x7d (mind @ indent) mind
            (map (\<lambda>k. quote k @ (if mind @ indent \<noteq> [] then lit '': '' else lit '':'') @
                       the (listed_property h indent es (mind @ indent) kvs k))
               (string_entries es))))"
proof -
  have a: "str h indent (Some es) mind (JObject kvs) =
     Some (wrap 0x7b 0x7d (mind @ indent) mind
       (concat (map (\<lambda>k. member (mind @ indent) k (listed_property h indent es (mind @ indent) kvs k))
          (string_entries es))))"
    by (simp add: Let_def concat_string_entries listed_property_def)
  show ?thesis
    unfolding a by (auto dest!: concat_member_all [where gap = "mind @ indent"])
qed

theorem inclusion_list_witness:
  \<open>string_entries [JString (lit ''c''), JNumber (Fin 7), JString (lit ''a'')] = [lit ''c'', lit ''a'']
   \<and> str host0 [] (Some [JString (lit ''c''), JNumber (Fin 7), JString (lit ''a'')]) []
        (JObject [(lit ''a'', JNumber (Fin 1)), (lit ''b'', JNumber (Fin 2)), (lit ''c'', JNumber (Fin 3))])
      = Some (lit ''{"c":3,"a":1}'')
   \<and> stringify host0
        (JObject [(lit ''a'', JNumber (Fin 1)), (lit ''b'', JNumber (Fin 2)), (lit ''c'', JNumber (Fin 3))])
        (RepValue (JArray [JString (lit ''c''), JString (lit ''a'')])) JUndefined
      = Inr (Some (lit ''{"c":3,"a":1}''))\<close>
  using inclusion_list [of host0 "[]" "[JString (lit ''c''), JNumber (Fin 7), JString (lit ''a'')]" "[]"
      "[(lit ''a'', JNumber (Fin 1)), (lit ''b'', JNumber (Fin 2)), (lit ''c'', JNumber (Fin 3))]"]
  by (simp add: stringify_def make_indent_def invalid_replacer_def typeof_length_def rep_entries_def
      listed_property_def prototype_method_def
      get_prop_def member_def wrap_def quote_def rx_escapable_def lit_def host0_def
      String_int_def String_nat_def toString_radix.simps digit_char_def Let_def)

text \<open>
  The claim as stated fails: \<open>stringify({a:1}, ['a','a'])\<close> emits the field \<open>a\<close> twice.
\<close>

theorem inclusion_list_duplicates_counterexample:
  \<open>stringify host0 (JObject [(lit ''a'', JNumber (Fin 1))])
     (RepValue (JArray [JString (lit ''a''), JString (lit ''a'')])) JUndefined
   = Inr (Some (lit ''{"a":1,"a":1}''))\<close>
  by (simp add: stringify_def make_indent_def invalid_replacer_def typeof_length_def rep_entries_def
      prototype_method_def
      get_prop_def member_def wrap_def quote_def rx_escapable_def lit_def host0_def
      String_int_def String_nat_def toString_radix.simps digit_char_def Let_def)

text \<open>
  Entries that the object does not own: \<open>stringify({a:1}, ['toString'])\<close> is \<open>{}\<close>,
  \<open>stringify({a:1}, ['b'])\<close> is \<open>{"b":"data:undefined,"}\<close>, and
  \<open>stringify({a:1}, ['__proto__'])\<close> is \<open>{"__proto__":{"__proto__":null}}\<close>.
\<close>

lemma inclusion_list_not_owned:
  \<open>stringify host0 (JObject [(lit ''a'', JNumber (Fin 1))])
     (RepValue (JArray [JString (lit ''toString'')])) JUndefined
   = Inr (Some (lit ''{}''))
   \<and> stringify host0 (JObject [(lit ''a'', JNumber (Fin 1))])
     (RepValue (JArray [JString (lit ''b'')])) JUndefined
   = Inr (Some (lit ''{"b":"data:undefined,"}''))
   \<and> stringify host0 (JObject [(lit ''a'', JNumber (Fin 1))])
     (RepValue (JArray [JString (lit ''__proto__'')])) JUndefined
   = Inr (Some (lit ''{"__proto__":{"__proto__":null}}''))\<close>
  by (simp add: stringify_def make_indent_def invalid_replacer_def typeof_length_def rep_entries_def
      prototype_method_def str_prototype_def toDataURL_def
      get_prop_def member_def wrap_def quote_def rx_escapable_def lit_def host0_def Let_def)


section \<open>Arrays\<close>

text \<open>
  Claim C9, as amended. \<open>str\<close> encodes an array from the texts of its elements in index
  order: \<open>[]\<close> when there is none; else the texts joined with commas between brackets,
  or, when the accumulated indent \<open>gap\<close> is not empty, one element per line behind
  \<open>gap\<close>, with the closing bracket behind the indent of the enclosing level. An element
  for which \<open>str\<close> returns no text (a symbol) becomes \<open>null\<close>; a missing or absent
  element becomes the quoted token \<open>data:undefined,\<close>, not \<open>null\<close>.
\<close>

theorem array_encoding:
  "str h indent rep mind (JArray xs) =
     Some (if xs = [] then lit ''[]''
           else if mind @ indent \<noteq> []
             then [0x5b, 0x0a] @ (mind @ indent) @
                  join ([0x2c, 0x0a] @ (mind @ indent))
                    (map (\<lambda>x. or_null (str h indent rep (mind @ indent) x)) xs) @
                  [0x0a] @ mind @ [0x5d]
             else [0x5b] @ join [0x2c] (map (\<lambda>x. or_null (str h indent rep (mind @ indent) x)) xs) @ [0x5d])
   \<and> or_null (str h indent rep gap (JSymbol n)) = lit ''null''
   \<and> or_null (str h indent rep gap JUndefined) = quote (lit ''data:undefined,'')
   \<and> quote (lit ''data:undefined,'') \<noteq> lit ''null''"
proof -
  have "str h indent rep mind (JArray xs) =
     Some (if xs = [] then lit ''[]''
           else if mind @ indent \<noteq> []
             then [0x5b, 0x0a] @ (mind @ indent) @
                  join ([0x2c, 0x0a] @ (mind @ indent))
                    (map (\<lambda>x. or_null (str h indent rep (mind @ indent) x)) xs) @
                  [0x0a] @ mind @ [0x5d]
             else [0x5b] @ join [0x2c] (map (\<lambda>x. or_null (str h indent rep (mind @ indent) x)) xs) @ [0x5d])"
    by (simp add: Let_def wrap_def lit_def)
  moreover have "or_null (str h indent rep gap (JSymbol n)) = lit ''null''"
    by (simp add: or_null_def)
  moreover have "or_null (str h indent rep gap JUndefined) = quote (lit ''data:undefined,'')"
    by (simp add: or_null_def toDataURL_def quote_def lit_def)
  moreover have "quote (lit ''data:undefined,'') \<noteq> lit ''null''"
    by (simp add: quote_def lit_def)
  ultimately show ?thesis by blast
qed

theorem array_encoding_witness:
  \<open>str host0 (lit ''  '') None [] (JArray [JNumber (Fin 1), JSymbol 5, JArray [JUndefined]])
     = Some ([0x5b, 0x0a] @ lit ''  1,'' @ [0x0a] @ lit ''  null,'' @ [0x0a] @ lit ''  ['' @ [0x0a] @
             lit ''    "data:undefined,"'' @ [0x0a] @ lit ''  ]'' @ [0x0a, 0x5d])
   \<and> str host0 [] None [] (JArray [JNumber (Fin 1), JSymbol 5, JArray [JUndefined]])
     = Some (lit ''[1,null,["data:undefined,"]]'')\<close>
  using array_encoding [of host0 "lit ''  ''" None "[]" "[JNumber (Fin 1), JSymbol 5, JArray [JUndefined]]"]
    array_encoding [of host0 "[]" None "[]" "[JNumber (Fin 1), JSymbol 5, JArray [JUndefined]]"]
  by (simp add: wrap_def quote_def rx_escapable_def lit_def toDataURL_def or_null_def Let_def host0_def
      String_int_def String_nat_def toString_radix.simps digit_char_def)

text \<open>
  The claim as stated fails: \<open>stringify([undefined])\<close> is \<open>["data:undefined,"]\<close>.
\<close>

theorem array_missing_element_counterexample:
  \<open>stringify host0 (JArray [JUndefined]) (RepValue JUndefined) JUndefined
     = Inr (Some (lit ''["data:undefined,"]''))
   \<and> lit ''["data:undefined,"]'' \<noteq> lit ''[null]''\<close>
  by (simp add: stringify_def make_indent_def invalid_replacer_def rep_entries_def
      wrap_def quote_def rx_escapable_def lit_def toDataURL_def or_null_def Let_def)

section \<open>Decoding at the root and of unrecognized strings\<close>

lemma quote_absent_token:
  "quote (lit ''data:undefined,'') = 0x22 # lit ''data:undefined,'' @ [0x22]"
  by (simp add: quote_def rx_escapable_def lit_def)

lemma read_absent_token:
  "read_value h (0x22 # lit ''data:undefined,'' @ [0x22]) = Inr (JString (lit ''data:undefined,''), [])"
  by (simp add: read_value.simps skip_ws_def is_ws_def lit_def prepend_def)

lemma decode_absent_token: "decode h (JString (lit ''data:undefined,'')) = Inr JUndefined"
  by (simp add: decode_def token_shape_def parseDataURL_def element_def lit_def Let_def)

lemma sweep_symbol: "sweep_loop (JSymbol n) [[]] = Some (Inr (JSymbol n))"
  by (simp add: sweep_loop.simps Object_keys_def)

text \<open>
  Claim C10. The text that \<open>stringify\<close> produces for a top-level \<open>undefined\<close> is the
  quoted token \<open>data:undefined,\<close>, and \<open>parse\<close> of that text (no reviver, no plugin)
  returns \<open>undefinedSymbol\<close> itself, which is not \<open>undefined\<close>: the sweep finds no field
  in the symbol and leaves the root as it is.
\<close>

theorem parse_absent_token:
  "stringify h JUndefined (RepValue JUndefined) JUndefined = Inr (Some (quote (lit ''data:undefined,'')))
   \<and> parse h (quote (lit ''data:undefined,'')) = Some (Inr undefinedSymbol)
   \<and> (undefinedSymbol :: 'n jsvalue) \<noteq> JUndefined
   \<and> sweep_loop (undefinedSymbol :: 'n jsvalue) [[]] = Some (Inr undefinedSymbol)"
proof -
  have "stringify h JUndefined (RepValue JUndefined) JUndefined = Inr (Some (quote (lit ''data:undefined,'')))"
    by (simp add: stringify_def make_indent_def invalid_replacer_def rep_entries_def toDataURL_def lit_def)
  moreover have "parse h (quote (lit ''data:undefined,'')) = Some (Inr undefinedSymbol)"
    by (simp add: parse_def JSON_parse_def quote_absent_token read_absent_token skip_ws_def
        reviver_callback_def decode_absent_token undefinedSymbol_def sweep_symbol)
  ultimately show ?thesis
    by (simp add: undefinedSymbol_def sweep_symbol)
qed

theorem parse_absent_token_witness:
  "parse host0 (quote (lit ''data:undefined,'')) = Some (Inr (JSymbol 0))
   \<and> JSymbol 0 \<noteq> (JUndefined :: int jsvalue)"
  using parse_absent_token [of host0] unfolding undefinedSymbol_def by blast

text \<open>
  What \<open>parseDataURL\<close> returns for a string of the token shape: the type is
  \<open><type>\<close> up to its first colon, the value the text after the comma.
\<close>

lemma token_shape_parts:
  assumes "token_shape s"
  obtains t p where "s = lit ''data:'' @ t @ 0x2c # p" and "0x2c \<notin> set t" and "t \<noteq> []" and "0x2c \<notin> set p"
proof -
  define r where "r = drop 5 s"
  define t where "t = takeWhile (\<lambda>c. c \<noteq> 0x2c) r"
  define d where "d = dropWhile (\<lambda>c. c \<noteq> 0x2c) r"
  from assms have a: "take 5 s = lit ''data:''" "t \<noteq> []" "d \<noteq> []" "0x2c \<notin> set (tl d)"
    by (simp_all add: token_shape_def r_def t_def d_def)
  have "hd d = 0x2c" using a(3) hd_dropWhile [of "\<lambda>c. c \<noteq> 0x2c" r] by (simp add: d_def)
  with a(3) have d: "d = 0x2c # tl d" by (cases d) simp_all
  have "r = t @ d" by (simp add: t_def d_def)
  with d have r: "r = t @ 0x2c # tl d" by simp
  have "s = take 5 s @ drop 5 s" by simp
  with a(1) r have "s = lit ''data:'' @ t @ 0x2c # tl d" by (simp add: r_def)
  moreover have "0x2c \<notin> set t" unfolding t_def by (auto dest: set_takeWhileD)
  ultimately show ?thesis using a(2,4) that by blast
qed

lemma takeWhile_before: "sep \<notin> set a \<Longrightarrow> takeWhile (\<lambda>c. c \<noteq> sep) (a @ sep # p) = a"
  by (induction a) auto

lemma dropWhile_before: "sep \<notin> set a \<Longrightarrow> dropWhile (\<lambda>c. c \<noteq> sep) (a @ sep # p) = sep # p"
  by (induction a) auto

lemma takeWhile_absent: "sep \<notin> set p \<Longrightarrow> takeWhile (\<lambda>c. c \<noteq> sep) p = p"
  by (induction p) auto

lemma token_shape_components:
  assumes "token_shape s"
  shows "tag_type (parseDataURL s) = Some (type_head s)"
    and "tag_value (parseDataURL s) = Some (value_field s)"
proof -
  from assms obtain t p where s: "s = lit ''data:'' @ t @ 0x2c # p"
    and t: "0x2c \<notin> set t" "t \<noteq> []" and p: "0x2c \<notin> set p"
    by (rule token_shape_parts)
  have pre: "0x2c \<notin> set (lit ''data:'' @ t)" using t by (simp add: lit_def)
  have s': "s = (lit ''data:'' @ t) @ 0x2c # p" using s by simp
  have first: "takeWhile (\<lambda>c. c \<noteq> 0x2c) s = lit ''data:'' @ t"
    unfolding s' using pre by (rule takeWhile_before)
  have after: "after_first 0x2c s = p"
    unfolding s' after_first_def using dropWhile_before [OF pre] by simp
  have field: "type_field s = t"
    unfolding type_field_def s using takeWhile_before [OF t(1)] by (simp add: lit_def)
  have data: "lit ''data:'' = [0x64, 0x61, 0x74, 0x61, 0x3a]" by (simp add: lit_def)
  have colon: "after_first 0x3a (lit ''data:'' @ t) = t" "0x3a \<in> set (lit ''data:'' @ t)"
    unfolding data by (simp_all add: after_first_def)
  have "0x2c \<in> set s" unfolding s by simp
  then show "tag_value (parseDataURL s) = Some (value_field s)"
    by (simp add: parseDataURL_def Let_def element_split_1 after value_field_def takeWhile_absent [OF p])
  have "element (split 0x2c s) 0 = Some (lit ''data:'' @ t)"
    by (simp add: element_split_0 first)
  moreover have "element (split 0x3a (lit ''data:'' @ t)) (Suc 0) = Some (takeWhile (\<lambda>c. c \<noteq> 0x3a) t)"
    using colon by (simp only: element_split_1 if_True)
  ultimately show "tag_type (parseDataURL s) = Some (type_head s)"
    by (simp add: parseDataURL_def Let_def type_head_def field)
qed

lemma decode_unrecognized:
  "(\<not> token_shape s \<or> \<not> recognized_type (tag_type (parseDataURL s)) \<longrightarrow>
      reviver_callback h key (JString s) = Inr (JString s)
      \<and> internalize (reviver_callback h) key (JString s) = Inr (JString s))
   \<and> (tag_type (parseDataURL s) = Some (lit ''number'') \<and>
      tag_value (parseDataURL s) \<notin> {Some (lit ''NaN''), Some (lit ''Infinity''), Some (lit ''-Infinity'')} \<longrightarrow>
      reviver_callback h key (JString s) = Inr (JString s))"
  by (auto simp: reviver_callback_def decode_def recognized_type_def Let_def lit_def)

text \<open>
  Claim C6, as amended. The function that \<open>parse\<close> hands to the host returns a string
  node unchanged, and so does the host's walk for it, without an error, whenever the
  string does not have the shape \<open>data:<type>,<value>\<close> with no further comma, or
  \<open><type>\<close> up to its first colon is none of \<open>undefined\<close>, \<open>number\<close>, \<open>bigint\<close>,
  \<open>date\<close>; a token whose \<open><type>\<close> up to its first colon is \<open>number\<close> and whose value
  is none of \<open>NaN\<close>, \<open>Infinity\<close>, \<open>-Infinity\<close> is left unchanged too.
\<close>

theorem unrecognized_token_unchanged:
  "(\<not> token_shape s \<or> \<not> recognized_type (Some (type_head s)) \<longrightarrow>
      reviver_callback h key (JString s) = Inr (JString s)
      \<and> internalize (reviver_callback h) key (JString s) = Inr (JString s))
   \<and> (token_shape s \<and> type_head s = lit ''number'' \<and>
      value_field s \<notin> {lit ''NaN'', lit ''Infinity'', lit ''-Infinity''} \<longrightarrow>
      reviver_callback h key (JString s) = Inr (JString s))"
proof (cases "token_shape s")
  case True
  note c = token_shape_components [OF True]
  from decode_unrecognized [of s h key] show ?thesis
    unfolding c by simp
next
  case False
  with decode_unrecognized [of s h key] show ?thesis by simp
qed

theorem unrecognized_token_unchanged_witness:
  "token_shape (lit ''data:text,hello'') \<and> type_head (lit ''data:text,hello'') = lit ''text''
   \<and> \<not> recognized_type (Some (lit ''text''))
   \<and> reviver_callback host0 [] (JString (lit ''data:text,hello'')) = Inr (JString (lit ''data:text,hello''))
   \<and> \<not> token_shape (lit ''data:number,NaN,'')
   \<and> reviver_callback host0 [] (JString (lit ''data:number,NaN,'')) = Inr (JString (lit ''data:number,NaN,''))
   \<and> type_head (lit ''data:number,42'') = lit ''number'' \<and> value_field (lit ''data:number,42'') = lit ''42''
   \<and> reviver_callback host0 [] (JString (lit ''data:number,42'')) = Inr (JString (lit ''data:number,42''))"
  using unrecognized_token_unchanged [of "lit ''data:text,hello''" host0 "[]"]
    unrecognized_token_unchanged [of "lit ''data:number,NaN,''" host0 "[]"]
    unrecognized_token_unchanged [of "lit ''data:number,42''" host0 "[]"]
  by (simp add: token_shape_def type_head_def type_field_def value_field_def after_first_def lit_def
      recognized_type_def)

text \<open>
  The claim as stated fails for a type with a colon in it: \<open>type.split(':')[1]\<close> keeps
  what stands before the colon. The type \<open>number:x\<close> is none of the four, and
  \<open>data:number:x,NaN\<close> is decoded to \<open>NaN\<close>; the type \<open>bigint:zz\<close> is none of the four,
  and \<open>data:bigint:zz,abc\<close> raises a \<open>SyntaxError\<close>.
\<close>

theorem colon_in_type_counterexample:
  \<open>token_shape (lit ''data:number:x,NaN'')
   \<and> type_field (lit ''data:number:x,NaN'') = lit ''number:x''
   \<and> \<not> recognized_type (Some (lit ''number:x''))
   \<and> reviver_callback host0 [] (JString (lit ''data:number:x,NaN'')) = Inr (JNumber NaN)
   \<and> parse host0 (lit ''"data:number:x,NaN"'') = Some (Inr (JNumber NaN))
   \<and> JNumber NaN \<noteq> (JString (lit ''data:number:x,NaN'') :: int jsvalue)
   \<and> token_shape (lit ''data:bigint:zz,abc'')
   \<and> type_field (lit ''data:bigint:zz,abc'') = lit ''bigint:zz''
   \<and> \<not> recognized_type (Some (lit ''bigint:zz''))
   \<and> reviver_callback host0 [] (JString (lit ''data:bigint:zz,abc'')) = Inl SyntaxError\<close>
  by (simp add: token_shape_def type_field_def recognized_type_def parseDataURL_def element_def lit_def Let_def
      reviver_callback_def decode_def host0_def read_int_def read_nat_def is_digit_def
      parse_def JSON_parse_def read_value.simps skip_ws_def is_ws_def prepend_def
      sweep_loop.simps [of "JNumber NaN" "[[]]"] sweep_loop.simps [of "JNumber NaN" "[]"] Object_keys_def)

section \<open>The sweep restores every field\<close>

subsection \<open>Decimal numerals are injective\<close>

lemma dec_value_snoc: "dec_value (s @ [c]) = 10 * dec_value s + (unat c - 0x30)"
  by (simp add: dec_value_def)

lemma unat_digit_char: "d < 10 \<Longrightarrow> unat (digit_char d) = 0x30 + d"
  by (simp add: digit_char_def unat_word_ariths unat_of_nat)

lemma dec_value_String_nat: "dec_value (String_nat n) = n"
proof (induction n rule: less_induct)
  case (less n)
  show ?case
  proof (cases "n < 10")
    case True
    then show ?thesis
      by (simp add: String_nat_def toString_radix.simps [of 10 n] dec_value_def unat_digit_char)
  next
    case False
    then have "n div 10 < n" by simp
    from less [OF this] False show ?thesis
      by (simp add: String_nat_def toString_radix.simps [of 10 n] dec_value_snoc unat_digit_char)
  qed
qed

lemma String_nat_inj: "String_nat a = String_nat b \<Longrightarrow> a = b"
  by (metis dec_value_String_nat)

lemma distinct_index_keys: "distinct (map String_nat [0..<n])"
  by (simp add: distinct_map inj_on_def String_nat_inj)

subsection \<open>Properties as association lists\<close>

lemma map_of_set_prop: "map_of (set_prop k x kvs) k' = (if k' = k then Some x else map_of kvs k')"
  by (induction kvs) auto

lemma get_prop_set_prop: "get_prop (set_prop k x kvs) k' = (if k' = k then x else get_prop kvs k')"
  by (simp add: get_prop_def map_of_set_prop)

lemma keys_set_prop: "k \<in> fst ` set kvs \<Longrightarrow> map fst (set_prop k x kvs) = map fst kvs"
  by (induction kvs) auto

lemma set_prop_same: "map_of kvs k = Some x \<Longrightarrow> set_prop k x kvs = kvs"
  by (induction kvs) (auto split: if_splits)

lemma set_prop_twice: "set_prop k y (set_prop k x kvs) = set_prop k y kvs"
  by (induction kvs) auto

lemma set_prop_middle:
  "k \<notin> fst ` set pre \<Longrightarrow> set_prop k x (pre @ (k, y) # post) = pre @ (k, x) # post"
  by (induction pre) auto

lemma map_of_middle: "k \<notin> fst ` set pre \<Longrightarrow> map_of (pre @ (k, y) # post) k = Some y"
  by (induction pre) auto

subsection \<open>Containers\<close>

lemma fields_with_fields:
  "container v \<Longrightarrow> map fst kvs' = map fst (fields v) \<Longrightarrow> fields (with_fields v kvs') = kvs'"
proof (cases v)
  case (JArray xs)
  assume "map fst kvs' = map fst (fields v)"
  with JArray have k: "map fst kvs' = map String_nat [0..<length xs]" by simp
  then have "length kvs' = length xs"
    by (metis length_map length_upt minus_nat.diff_0)
  with k have "zip (map String_nat [0..<length kvs']) (map snd kvs') = kvs'"
    by (metis zip_map_fst_snd)
  with JArray show ?thesis by simp
qed (simp_all add: container_def)

lemma with_fields_fields: "with_fields v (fields v) = v"
  by (cases v) (simp_all add: map_snd_zip)

lemma set_field_with_fields:
  "container v \<Longrightarrow> set_field v k x = with_fields v (set_prop k x (fields v))"
  by (cases v) (simp_all add: container_def)

lemma container_with_fields [simp]: "container (with_fields v kvs) = container v"
  by (cases v) (simp_all add: container_def)

lemma with_fields_twice [simp]: "with_fields (with_fields v a) b = with_fields v b"
  by (cases v) simp_all

lemma fields_set_field:
  "container v \<Longrightarrow> k \<in> fst ` set (fields v) \<Longrightarrow> fields (set_field v k x) = set_prop k x (fields v)"
  by (simp add: set_field_with_fields fields_with_fields keys_set_prop)

lemma container_set_field [simp]: "container (set_field v k x) = container v"
  by (cases v) (simp_all add: container_def)

lemma get_field_set_field:
  "container v \<Longrightarrow> k \<in> fst ` set (fields v) \<Longrightarrow>
     get_field (set_field v k x) k' = (if k' = k then x else get_field v k')"
  by (simp add: get_field_def fields_set_field get_prop_set_prop)

lemma keys_set_field:
  "container v \<Longrightarrow> k \<in> fst ` set (fields v) \<Longrightarrow>
     map fst (fields (set_field v k x)) = map fst (fields v)"
  by (simp add: fields_set_field keys_set_prop)

lemma key_set_set_field:
  "container v \<Longrightarrow> k \<in> fst ` set (fields v) \<Longrightarrow>
     fst ` set (fields (set_field v k x)) = fst ` set (fields v)"
  using keys_set_field [of v k x] by (metis list.set_map)

lemma set_field_twice:
  "container v \<Longrightarrow> k \<in> fst ` set (fields v) \<Longrightarrow>
     set_field (set_field v k x) k y = set_field v k y"
  by (simp add: set_field_with_fields fields_with_fields keys_set_prop set_prop_twice)

lemma map_of_in_keys: "k \<in> fst ` set kvs \<Longrightarrow> \<exists>x. map_of kvs k = Some x"
  by (induction kvs) auto

lemma set_field_get_field:
  "k \<in> fst ` set (fields v) \<Longrightarrow> set_field v k (get_field v k) = v"
proof -
  assume k: "k \<in> fst ` set (fields v)"
  from map_of_in_keys [OF k] obtain x where x: "map_of (fields v) k = Some x" ..
  show ?thesis
  proof (cases "container v")
    case True
    with x show ?thesis
      by (simp add: set_field_with_fields get_field_def get_prop_def set_prop_same with_fields_fields)
  next
    case False
    then show ?thesis by (cases v) (simp_all add: container_def)
  qed
qed

subsection \<open>Paths\<close>

lemma get_at_append: "get_at j (q @ [k]) = get_field (get_at j q) k"
  by (induction q arbitrary: j) simp_all

lemma set_at_append: "set_at j (q @ [k]) x = set_at j q (set_field (get_at j q) k x)"
  by (induction q arbitrary: j) simp_all

lemma get_set_same: "valid_path j q \<Longrightarrow> get_at (set_at j q x) q = x"
  by (induction q arbitrary: j) (simp_all add: get_field_set_field)

lemma set_set_same: "valid_path j q \<Longrightarrow> set_at (set_at j q x) q y = set_at j q y"
  by (induction q arbitrary: j) (simp_all add: get_field_set_field set_field_twice)

lemma set_get_same: "valid_path j q \<Longrightarrow> set_at j q (get_at j q) = j"
  by (induction q arbitrary: j) (simp_all add: set_field_get_field)

lemma valid_set_same: "valid_path j q \<Longrightarrow> valid_path (set_at j q x) q"
  by (induction q arbitrary: j) (simp_all add: get_field_set_field key_set_set_field)

subsection \<open>The inner loop at one node\<close>

lemma sweep_keys_node_loop:
  "valid_path j q \<Longrightarrow>
   sweep_keys q ks (j, Q) =
     (set_at j q (fst (node_loop ks (get_at j q))),
      Q @ map (\<lambda>k. q @ [k]) (snd (node_loop ks (get_at j q))))"
proof (induction ks arbitrary: j Q)
  case Nil
  then show ?case by (simp add: set_get_same)
next
  case (Cons k ks)
  let ?c = "get_at j q"
  show ?case
  proof (cases "get_field ?c k = undefinedSymbol")
    case True
    let ?j1 = "set_at j q (set_field ?c k JUndefined)"
    from Cons.prems have v: "valid_path ?j1 q" by (rule valid_set_same)
    from Cons.prems have g: "get_at ?j1 q = set_field ?c k JUndefined" by (rule get_set_same)
    from True have "sweep_keys q (k # ks) (j, Q) = sweep_keys q ks (?j1, Q)"
      by (simp add: get_at_append set_at_append)
    also have "\<dots> = (set_at ?j1 q (fst (node_loop ks (get_at ?j1 q))),
        Q @ map (\<lambda>k. q @ [k]) (snd (node_loop ks (get_at ?j1 q))))"
      by (rule Cons.IH [OF v])
    finally show ?thesis
      using True Cons.prems by (simp add: g set_set_same)
  next
    case False
    show ?thesis
    proof (cases "is_object (get_field ?c k)")
      case True
      with False have "sweep_keys q (k # ks) (j, Q) = sweep_keys q ks (j, Q @ [q @ [k]])"
        by (simp add: get_at_append)
      with Cons.IH [OF Cons.prems, of "Q @ [q @ [k]]"] False True show ?thesis
        by (simp add: split_beta)
    next
      case nobj: False
      with False have "sweep_keys q (k # ks) (j, Q) = sweep_keys q ks (j, Q)"
        by (simp add: get_at_append)
      with Cons.IH [OF Cons.prems, of Q] False nobj show ?thesis
        by simp
    qed
  qed
qed

lemma is_object_sentinel [simp]: "\<not> is_object undefinedSymbol"
  by (simp add: is_object_def undefinedSymbol_def)

lemma node_loop_idle:
  "(\<forall>k \<in> set ks. get_field c k \<noteq> undefinedSymbol \<and> \<not> is_object (get_field c k)) \<Longrightarrow>
   node_loop ks c = (c, [])"
  by (induction ks) simp_all

lemma node_loop_fields:
  assumes "container c" and "distinct (map fst (pre @ post))"
    and "map fst (pre @ post) = map fst (fields c)"
  shows "node_loop (map fst post) (with_fields c (pre @ post)) =
     (with_fields c (pre @ map (\<lambda>kv. (fst kv, clean (snd kv))) post),
      map fst (filter (\<lambda>kv. is_object (snd kv)) post))"
  using assms
proof (induction post arbitrary: pre)
  case Nil
  then show ?case by simp
next
  case (Cons kv post)
  obtain k y where kv: "kv = (k, y)" by (cases kv)
  let ?node = "with_fields c (pre @ kv # post)"
  from Cons.prems have f: "fields ?node = pre @ kv # post"
    by (simp add: fields_with_fields)
  from Cons.prems kv have notin: "k \<notin> fst ` set pre" by auto
  from map_of_middle [OF notin, of y post] f kv have g: "get_field ?node k = y"
    by (simp only: get_field_def get_prop_def option.case)
  have eq: "map fst ((pre @ [kv']) @ post) = map fst (pre @ kv # post)" if "fst kv' = k" for kv'
    using kv that by simp
  have pre': "distinct (map fst ((pre @ [kv']) @ post))"
    "map fst ((pre @ [kv']) @ post) = map fst (fields c)" if "fst kv' = k" for kv'
    unfolding eq [OF that] by (rule Cons.prems(2), rule Cons.prems(3))
  show ?case
  proof (cases "y = undefinedSymbol")
    case True
    from Cons.prems(1) f kv notin
    have "set_field ?node k JUndefined = with_fields c ((pre @ [(k, JUndefined)]) @ post)"
      by (simp add: set_field_with_fields set_prop_middle)
    with Cons.IH [OF Cons.prems(1) pre' [of "(k, JUndefined)"]] g True kv show ?thesis
      by (simp add: clean_def)
  next
    case False
    with Cons.IH [OF Cons.prems(1) pre' [of kv]] g kv show ?thesis
      by (simp add: clean_def)
  qed
qed

lemma restore1_with_fields:
  "restore1 c = with_fields c (map (\<lambda>kv. (fst kv, clean (snd kv))) (fields c))"
proof (cases c)
  case (JArray xs)
  have "map snd (zip (map String_nat [0..<length xs]) xs) = xs"
    by (simp add: map_snd_zip)
  then have "map snd (map (\<lambda>kv. (fst kv, clean (snd kv))) (zip (map String_nat [0..<length xs]) xs)) = map clean xs"
    by (simp only: map_map comp_def snd_conv) (simp only: map_map [symmetric, unfolded comp_def, of clean snd])
  with JArray show ?thesis by simp
qed simp_all

lemma get_prop_cases: "get_prop kvs k = JUndefined \<or> get_prop kvs k \<in> snd ` set kvs"
  by (auto simp: get_prop_def split: option.splits dest!: map_of_SomeD intro: rev_image_eqI)

lemma node_loop_restore1:
  assumes "keys_distinct c"
  shows "node_loop (map fst (fields c)) c =
     (restore1 c, map fst (filter (\<lambda>kv. is_object (snd kv)) (fields c)))"
proof (cases "container c")
  case True
  with assms node_loop_fields [of c "[]" "fields c"] show ?thesis
    by (simp add: keys_distinct_def with_fields_fields restore1_with_fields)
next
  case False
  have idle: "get_field c k \<noteq> undefinedSymbol \<and> \<not> is_object (get_field c k)" for k
  proof (cases c)
    case (JString s)
    with get_prop_cases [of "fields c" k] show ?thesis
      by (auto simp: get_field_def undefinedSymbol_def is_object_def dest!: set_zip_rightD)
  next
    case (JArray xs)
    with False show ?thesis by (simp add: container_def)
  next
    case (JObject kvs)
    with False show ?thesis by (simp add: container_def)
  qed (simp_all add: get_field_def get_prop_def undefinedSymbol_def is_object_def)
  have "filter (\<lambda>kv. is_object (snd kv)) (fields c) = []"
  proof (cases c)
    case (JString s)
    then show ?thesis
      by (auto simp: filter_empty_conv is_object_def dest!: set_zip_rightD)
  next
    case (JArray xs)
    with False show ?thesis by (simp add: container_def)
  next
    case (JObject kvs)
    with False show ?thesis by (simp add: container_def)
  qed simp_all
  moreover from False have "restore1 c = c"
    by (cases c) (simp_all add: container_def)
  ultimately show ?thesis
    by (simp add: node_loop_idle idle)
qed

subsection \<open>The result of the sweep\<close>

lemma map_snd_index_zip: "map snd (zip (map String_nat [0..<length xs]) xs) = xs"
  by (simp add: map_snd_zip)

lemma map_fst_index_zip: "map fst (zip (map String_nat [0..<length xs]) xs) = map String_nat [0..<length xs]"
  by simp

lemma map_snd_zip_comp:
  "length ks = length xs \<Longrightarrow> map (\<lambda>kv. g (snd kv)) (zip ks xs) = map g xs"
  by (induction ks xs rule: list_induct2) simp_all

lemma restore_object_rf: "restore (JObject kvs) = JObject (map (\<lambda>kv. (fst kv, rf (snd kv))) kvs)"
  by (simp add: rf_def [abs_def])

lemma restore_array_rf: "restore (JArray xs) = JArray (map rf xs)"
  by (simp add: rf_def [abs_def])

lemma restore_with_fields:
  "container c \<Longrightarrow> restore c = with_fields c (map (\<lambda>kv. (fst kv, rf (snd kv))) (fields c))"
proof (cases c)
  case (JArray xs)
  then show ?thesis
    by (simp only: restore_array_rf fields.simps with_fields.simps map_map comp_def snd_conv)
      (simp add: map_snd_zip_comp)
next
  case (JObject kvs)
  then show ?thesis by (simp only: restore_object_rf fields.simps with_fields.simps)
qed (simp_all add: container_def)

lemma restore_not_container: "\<not> container c \<Longrightarrow> restore c = c"
  by (cases c) (simp_all add: container_def)

lemma container_restore [simp]: "container (restore c) = container c"
  by (cases c) (simp_all add: container_def)

lemma is_object_restore [simp]: "is_object (restore c) = is_object c"
  by (cases c) (simp_all add: is_object_def)

lemma keys_restore [simp]: "map fst (fields (restore c)) = map fst (fields c)"
  by (cases c) (simp_all add: comp_def)

lemma fields_restore:
  "fields (restore c) = map (\<lambda>kv. (fst kv, rf (snd kv))) (fields c)" if "container c"
  using that by (simp add: restore_with_fields fields_with_fields comp_def)

lemma restore_eq_sentinel [simp]: "restore c = undefinedSymbol \<longleftrightarrow> c = undefinedSymbol"
  by (cases c) (simp_all add: undefinedSymbol_def)

lemma restore_eq_undefined [simp]: "restore c = JUndefined \<longleftrightarrow> c = JUndefined"
  by (cases c) simp_all

lemma undefined_eq_restore [simp]: "JUndefined = restore c \<longleftrightarrow> c = JUndefined"
  by (cases c) simp_all

lemma sentinel_eq_restore [simp]: "undefinedSymbol = restore c \<longleftrightarrow> c = undefinedSymbol"
  by (cases c) (auto simp: undefinedSymbol_def)

lemma weight_positive: "0 < weight c"
  by (cases c) simp_all

lemma weight_fields: "container c \<Longrightarrow> weight c = Suc (sum_list (map (\<lambda>kv. weight (snd kv)) (fields c)))"
  by (cases c) (simp_all add: container_def map_snd_zip_comp)

lemma weight_rf: "weight (restore x) = weight x \<Longrightarrow> weight (rf x) = weight x"
  by (simp add: rf_def undefinedSymbol_def)

lemma weight_restore [simp]: "weight (restore c) = weight c"
proof (induction c rule: restore.induct)
  case (1 kvs)
  have "map (\<lambda>kv. weight (rf (snd kv))) kvs = map (\<lambda>kv. weight (snd kv)) kvs"
  proof (rule map_cong [OF refl])
    fix kv assume "kv \<in> set kvs"
    show "weight (rf (snd kv)) = weight (snd kv)"
    proof (cases "snd kv = undefinedSymbol")
      case True
      then show ?thesis by (simp add: rf_def undefinedSymbol_def)
    next
      case False
      with 1 [OF \<open>kv \<in> set kvs\<close>] show ?thesis by (simp add: rf_def)
    qed
  qed
  then show ?case
    by (simp only: restore_object_rf weight.simps map_map comp_def snd_conv)
next
  case (2 xs)
  have "map (\<lambda>x. weight (rf x)) xs = map weight xs"
  proof (rule map_cong [OF refl])
    fix x assume "x \<in> set xs"
    show "weight (rf x) = weight x"
    proof (cases "x = undefinedSymbol")
      case True
      then show ?thesis by (simp add: rf_def undefinedSymbol_def)
    next
      case False
      with 2 [OF \<open>x \<in> set xs\<close>] show ?thesis by (simp add: rf_def)
    qed
  qed
  then show ?case
    by (simp only: restore_array_rf weight.simps map_map comp_def)
qed simp_all

lemma wf_value_sentinel [simp]: "wf_value undefinedSymbol"
  by (simp add: undefinedSymbol_def)

lemma wf_value_rf: "(x \<noteq> undefinedSymbol \<Longrightarrow> wf_value (restore x) = wf_value x) \<Longrightarrow> wf_value (rf x) = wf_value x"
  by (cases "x = undefinedSymbol") (simp_all add: rf_def)

lemma wf_value_restore [simp]: "wf_value (restore c) = wf_value c"
proof (induction c rule: restore.induct)
  case (1 kvs)
  have "wf_value (rf (snd kv)) = wf_value (snd kv)" if "kv \<in> set kvs" for kv
    by (rule wf_value_rf) (rule 1 [OF that])
  then show ?case
    by (simp add: restore_object_rf comp_def del: restore.simps)
next
  case (2 xs)
  have "wf_value (rf x) = wf_value x" if "x \<in> set xs" for x
    by (rule wf_value_rf) (rule 2 [OF that])
  then show ?case
    by (simp add: restore_array_rf del: restore.simps)
qed simp_all

lemma wf_value_fields:
  "wf_value c \<Longrightarrow> keys_distinct c \<and> (\<forall>kv \<in> set (fields c). wf_value (snd kv))"
  by (cases c) (auto simp: keys_distinct_def distinct_index_keys dest!: set_zip_rightD)

lemma get_field_in_fields:
  "k \<in> fst ` set (fields c) \<Longrightarrow> (k, get_field c k) \<in> set (fields c)" if "keys_distinct c"
  using that by (auto simp: get_field_def get_prop_def keys_distinct_def)

lemma wf_value_get_field: "wf_value c \<Longrightarrow> wf_value (get_field c k)"
proof -
  assume wf: "wf_value c"
  from get_prop_cases [of "fields c" k] show ?thesis
  proof
    assume "get_prop (fields c) k = JUndefined"
    then show ?thesis by (simp add: get_field_def)
  next
    assume "get_prop (fields c) k \<in> snd ` set (fields c)"
    with wf_value_fields [OF wf] show ?thesis by (auto simp: get_field_def)
  qed
qed

lemma restore_restore1 [simp]: "restore (restore1 c) = restore c"
  by (cases c) (auto simp: clean_def comp_def undefinedSymbol_def)

lemma rf_eq_iff:
  "rf y' = rf y \<longleftrightarrow> (y' = undefinedSymbol \<or> y' = JUndefined) \<and> (y = undefinedSymbol \<or> y = JUndefined)
     \<or> y' \<noteq> undefinedSymbol \<and> y \<noteq> undefinedSymbol \<and> restore y' = restore y"
  by (auto simp: rf_def)

lemma map_set_prop_same:
  "k \<in> fst ` set kvs \<Longrightarrow> g x = g (get_prop kvs k) \<Longrightarrow>
   map (\<lambda>kv. (fst kv, g (snd kv))) (set_prop k x kvs) = map (\<lambda>kv. (fst kv, g (snd kv))) kvs"
proof (induction kvs)
  case Nil
  then show ?case by simp
next
  case (Cons p kvs)
  show ?case
  proof (cases "fst p = k")
    case True
    with Cons.prems show ?thesis
      by (cases p) (simp add: get_prop_def)
  next
    case False
    with Cons.prems have "k \<in> fst ` set kvs" "g x = g (get_prop kvs k)"
      by (cases p; auto simp: get_prop_def)+
    with Cons.IH False show ?thesis by simp
  qed
qed

lemma get_prop_map_rf: "get_prop (map (\<lambda>kv. (fst kv, rf (snd kv))) kvs) k = rf (get_prop kvs k)"
  by (induction kvs) (auto simp: get_prop_def rf_def undefinedSymbol_def)

lemma get_field_restore: "container j \<Longrightarrow> get_field (restore j) k = rf (get_field j k)"
  by (simp add: get_field_def fields_restore get_prop_map_rf)

lemma restore_set_field:
  assumes "container j" and "k \<in> fst ` set (fields j)" and "rf y' = rf (get_field j k)"
  shows "restore (set_field j k y') = restore j"
proof -
  from assms(1,2) have "fields (set_field j k y') = set_prop k y' (fields j)"
    by (rule fields_set_field)
  with assms show ?thesis
    by (simp add: restore_with_fields set_field_with_fields map_set_prop_same get_field_def)
qed

lemma restore_map_at:
  "valid_path j q \<Longrightarrow> restore (set_at j q (restore1 (get_at j q))) = restore j"
proof (induction q arbitrary: j)
  case Nil
  then show ?case by simp
next
  case (Cons k q)
  let ?y = "get_field j k"
  let ?y' = "set_at ?y q (restore1 (get_at ?y q))"
  from Cons have r: "restore ?y' = restore ?y" by simp
  have "?y' = undefinedSymbol \<longleftrightarrow> ?y = undefinedSymbol"
    using r by (metis restore_eq_sentinel)
  with r have "rf ?y' = rf ?y" by (simp add: rf_def)
  with Cons.prems show ?case by (simp add: restore_set_field)
qed

lemma restore_eq_path:
  assumes "restore j' = restore j" and "valid_path j r" and "is_object (get_at j r)"
  shows "valid_path j' r \<and> restore (get_at j' r) = restore (get_at j r)"
  using assms
proof (induction r arbitrary: j j')
  case Nil
  then show ?case by simp
next
  case (Cons k r)
  let ?y = "get_field j k" and ?y' = "get_field j' k"
  from Cons.prems have c: "container j" and k: "k \<in> fst ` set (fields j)" and v: "valid_path ?y r"
    by simp_all
  from Cons.prems(1) c have c': "container j'"
    by (metis container_restore)
  from Cons.prems(1) have keys: "map fst (fields j') = map fst (fields j)"
    by (metis keys_restore)
  then have k': "k \<in> fst ` set (fields j')"
    using k by (metis list.set_map)
  have "get_field (restore j) k = rf ?y" "get_field (restore j') k = rf ?y'"
    using c c' by (simp_all add: get_field_restore)
  with Cons.prems(1) have rfeq: "rf ?y' = rf ?y" by simp
  have obj: "is_object ?y"
  proof (cases r)
    case Nil
    with Cons.prems(3) show ?thesis by simp
  next
    case (Cons k2 r2)
    with v have "container ?y" by simp
    then show ?thesis by (cases ?y) (simp_all add: container_def is_object_def)
  qed
  then have "?y \<noteq> undefinedSymbol" "?y \<noteq> JUndefined"
    by (auto simp: is_object_def undefinedSymbol_def)
  with rfeq have "restore ?y' = restore ?y"
    by (auto simp: rf_eq_iff)
  from Cons.IH [OF this v] Cons.prems(3) c' k' show ?case by simp
qed

subsection \<open>One iteration of the outer loop\<close>

lemma valid_path_append:
  "valid_path j (q @ [k]) \<longleftrightarrow>
     valid_path j q \<and> container (get_at j q) \<and> k \<in> fst ` set (fields (get_at j q))"
  by (induction q arbitrary: j) auto

lemma wf_value_get_at: "wf_value j \<Longrightarrow> wf_value (get_at j q)"
  by (induction q arbitrary: j) (simp_all add: wf_value_get_field)

lemma sweep_keys_step:
  assumes "wf_value j" and "valid_path j q"
  shows "sweep_keys q (map fst (fields (get_at j q))) (j, Q) =
     (set_at j q (restore1 (get_at j q)), Q @ map (\<lambda>k. q @ [k]) (pushed (get_at j q)))"
proof -
  from assms(1) have "keys_distinct (get_at j q)"
    using wf_value_fields wf_value_get_at by blast
  from node_loop_restore1 [OF this] sweep_keys_node_loop [OF assms(2)] show ?thesis
    by (simp add: pushed_def)
qed

lemma clean_not_sentinel [simp]: "clean y \<noteq> undefinedSymbol"
  by (simp add: clean_def undefinedSymbol_def)

lemma clean_object: "is_object y \<Longrightarrow> clean y = y"
  by (auto simp: clean_def)

lemma weight_clean [simp]: "weight (clean y) = weight y"
  by (simp add: clean_def undefinedSymbol_def)

lemma get_prop_map_clean: "get_prop (map (\<lambda>kv. (fst kv, clean (snd kv))) kvs) k = clean (get_prop kvs k)"
  by (induction kvs) (auto simp: get_prop_def clean_def undefinedSymbol_def)

lemma fields_restore1: "fields (restore1 c) = map (\<lambda>kv. (fst kv, clean (snd kv))) (fields c)"
proof (cases "container c")
  case True
  then show ?thesis
    by (simp add: restore1_with_fields fields_with_fields comp_def)
next
  case False
  then show ?thesis
  proof (cases c)
    case (JString s)
    have "map (\<lambda>kv. (fst kv, clean (snd kv))) (zip ks (map (\<lambda>c. JString [c]) s)) =
        zip ks (map (\<lambda>c. JString [c]) s)" for ks :: "jsstring list"
      by (rule map_idI) (auto simp: clean_def undefinedSymbol_def dest!: set_zip_rightD)
    then show ?thesis
      unfolding JString restore1.simps fields.simps by (rule sym)
  qed (simp_all add: container_def)
qed

lemma get_field_restore1: "get_field (restore1 c) k = clean (get_field c k)"
  by (simp add: get_field_def fields_restore1 get_prop_map_clean)

lemma container_restore1 [simp]: "container (restore1 c) = container c"
  by (cases c) (simp_all add: container_def)

lemma pushed_in_keys: "k \<in> set (pushed c) \<Longrightarrow> k \<in> fst ` set (fields c)"
  by (auto simp: pushed_def)

lemma pushed_container: "k \<in> set (pushed c) \<Longrightarrow> container c"
proof (cases c)
  case (JString s)
  assume "k \<in> set (pushed c)"
  with JString show ?thesis
    by (auto simp: pushed_def is_object_def dest!: set_zip_rightD)
qed (simp_all add: pushed_def container_def)

lemma pushed_is_object:
  assumes "keys_distinct c" and "k \<in> set (pushed c)"
  shows "is_object (get_field c k)"
proof -
  from assms(2) obtain y where "(k, y) \<in> set (fields c)" "is_object y"
    by (auto simp: pushed_def)
  with assms(1) show ?thesis
    by (simp add: get_field_def get_prop_def keys_distinct_def)
qed

lemma sum_list_filter_le: "sum_list (map f (filter P xs)) \<le> (sum_list (map f xs) :: nat)"
  by (induction xs) simp_all

lemma pushed_weight:
  assumes "keys_distinct c"
  shows "sum_list (map (\<lambda>k. weight (get_field c k)) (pushed c)) < weight c"
proof (cases "container c")
  case True
  have "map (\<lambda>k. weight (get_field c k)) (pushed c) =
      map (\<lambda>kv. weight (snd kv)) (filter (\<lambda>kv. is_object (snd kv)) (fields c))"
    unfolding pushed_def map_map comp_def
  proof (rule map_cong [OF refl])
    fix kv assume "kv \<in> set (filter (\<lambda>kv. is_object (snd kv)) (fields c))"
    then have "kv \<in> set (fields c)" by simp
    with assms have "get_field c (fst kv) = snd kv"
      by (cases kv) (simp add: get_field_def get_prop_def keys_distinct_def)
    then show "weight (get_field c (fst kv)) = weight (snd kv)" by simp
  qed
  with sum_list_filter_le [of "\<lambda>kv. weight (snd kv)" "\<lambda>kv. is_object (snd kv)" "fields c"]
    weight_fields [OF True] show ?thesis by simp
next
  case False
  then have "pushed c = []"
    using pushed_container [of _ c] by (cases "pushed c") auto
  then show ?thesis by (simp add: weight_positive)
qed

subsection \<open>What the queue still has to clean\<close>

lemma covered_mono: "covered v A \<Longrightarrow> A \<subseteq> B \<Longrightarrow> covered v B"
proof (induction v A arbitrary: B rule: covered.induct)
  case (1 v Q)
  show ?case
  proof (cases "[] \<in> Q")
    case True
    with "1.prems" have "[] \<in> B" by auto
    then show ?thesis by (simp only: covered.simps [of v B] simp_thms)
  next
    case False
    from "1.prems"(1) False
    have all: "\<forall>kv \<in> set (if container v then fields v else []).
        snd kv \<noteq> undefinedSymbol \<and> covered (snd kv) {r. fst kv # r \<in> Q}"
      by (simp only: covered.simps [of v Q] simp_thms)
    have "\<forall>kv \<in> set (if container v then fields v else []).
        snd kv \<noteq> undefinedSymbol \<and> covered (snd kv) {r. fst kv # r \<in> B}"
    proof
      fix kv assume kv: "kv \<in> set (if container v then fields v else [])"
      with all have "snd kv \<noteq> undefinedSymbol" "covered (snd kv) {r. fst kv # r \<in> Q}"
        by blast+
      moreover from "1.prems"(2) have "{r. fst kv # r \<in> Q} \<subseteq> {r. fst kv # r \<in> B}" by auto
      ultimately show "snd kv \<noteq> undefinedSymbol \<and> covered (snd kv) {r. fst kv # r \<in> B}"
        using "1.IH" [OF kv] by blast
    qed
    then show ?thesis by (subst covered.simps) (rule disjI2)
  qed
qed

lemma covered_not_container: "\<not> container v \<Longrightarrow> covered v Q"
  by (simp add: covered.simps [of v Q])

lemma covered_here: "[] \<in> Q \<Longrightarrow> covered v Q"
  by (simp add: covered.simps [of v Q])

lemma covered_fields:
  assumes "covered v Q" and "[] \<notin> Q" and "container v" and "kv \<in> set (fields v)"
  shows "snd kv \<noteq> undefinedSymbol \<and> covered (snd kv) {r. fst kv # r \<in> Q}"
proof -
  from assms(1,2,3)
  have "\<forall>kv \<in> set (fields v). snd kv \<noteq> undefinedSymbol \<and> covered (snd kv) {r. fst kv # r \<in> Q}"
    by (simp add: covered.simps [of v Q])
  with assms(4) show ?thesis by blast
qed

lemma covered_intro:
  assumes "container v"
    and "\<And>kv. kv \<in> set (fields v) \<Longrightarrow> snd kv \<noteq> undefinedSymbol \<and> covered (snd kv) {r. fst kv # r \<in> Q}"
  shows "covered v Q"
  using assms by (simp add: covered.simps [of v Q])

lemma covered_empty: "covered v {} \<Longrightarrow> restore v = v"
proof (induction v rule: measure_induct_rule [where f = size])
  case (less v)
  show ?case
  proof (cases "container v")
    case True
    have "(fst kv, rf (snd kv)) = kv" if kv: "kv \<in> set (fields v)" for kv
    proof -
      from covered_fields [OF less.prems _ True kv]
      have a: "snd kv \<noteq> undefinedSymbol" and b: "covered (snd kv) {}" by simp_all
      from size_fields [OF True kv] b have "restore (snd kv) = snd kv" by (rule less.IH)
      with a show ?thesis by (simp add: rf_def)
    qed
    then have "map (\<lambda>kv. (fst kv, rf (snd kv))) (fields v) = fields v"
      by (simp add: map_idI)
    with True show ?thesis
      by (simp add: restore_with_fields with_fields_fields)
  next
    case False
    then show ?thesis by (rule restore_not_container)
  qed
qed

lemma container_is_object: "container v \<Longrightarrow> is_object v"
  by (cases v) (simp_all add: container_def is_object_def)

lemma not_container_clean: "\<not> is_object y \<Longrightarrow> \<not> container (clean y)"
proof (cases "y = undefinedSymbol")
  case True
  then show ?thesis by (simp add: clean_def container_def)
next
  case False
  assume "\<not> is_object y"
  with False container_is_object [of y] show ?thesis by (auto simp: clean_def)
qed

lemma set_set_prop:
  "distinct (map fst kvs) \<Longrightarrow> kv \<in> set (set_prop k x kvs) \<Longrightarrow>
     kv = (k, x) \<or> (kv \<in> set kvs \<and> fst kv \<noteq> k)"
  by (induction kvs) (auto split: if_splits)

lemma covered_step:
  assumes "wf_value j" and "valid_path j q" and "covered j Q"
  shows "covered (set_at j q (restore1 (get_at j q)))
     ((Q - {q}) \<union> (\<lambda>k. q @ [k]) ` set (pushed (get_at j q)))"
  using assms
proof (induction q arbitrary: j Q)
  case Nil
  let ?Q' = "(Q - {[]}) \<union> (\<lambda>k. [] @ [k]) ` set (pushed j)"
  show ?case
  proof (cases "container j")
    case False
    then show ?thesis by (simp add: covered_not_container)
  next
    case True
    have "covered (restore1 j) ?Q'"
    proof (rule covered_intro)
      show "container (restore1 j)" using True by simp
    next
      fix kv assume "kv \<in> set (fields (restore1 j))"
      then obtain k y where kv: "kv = (k, clean y)" and y: "(k, y) \<in> set (fields j)"
        by (auto simp: fields_restore1)
      have "covered (clean y) {r. k # r \<in> ?Q'}"
      proof (cases "is_object y")
        case True
        with y have "k \<in> set (pushed j)" by (force simp: pushed_def)
        then have "[] \<in> {r. k # r \<in> ?Q'}" by simp
        then show ?thesis by (rule covered_here)
      next
        case False
        then show ?thesis by (intro covered_not_container not_container_clean)
      qed
      with kv show "snd kv \<noteq> undefinedSymbol \<and> covered (snd kv) {r. fst kv # r \<in> ?Q'}"
        by simp
    qed
    then show ?thesis by simp
  qed
next
  case (Cons k q)
  let ?y = "get_field j k"
  let ?y' = "set_at ?y q (restore1 (get_at ?y q))"
  let ?P = "(\<lambda>k2. q @ [k2]) ` set (pushed (get_at ?y q))"
  let ?Q' = "(Q - {k # q}) \<union> (\<lambda>k2. (k # q) @ [k2]) ` set (pushed (get_at j (k # q)))"
  from Cons.prems have c: "container j" and k: "k \<in> fst ` set (fields j)" and v: "valid_path ?y q"
    by simp_all
  from Cons.prems(1) have d: "keys_distinct j" and wfy: "wf_value ?y"
    by (simp_all add: wf_value_fields wf_value_get_field)
  show ?case
  proof (cases "[] \<in> Q")
    case True
    then have "[] \<in> ?Q'" by simp
    then show ?thesis by (rule covered_here)
  next
    case False
    have "covered (set_field j k ?y') ?Q'"
    proof (rule covered_intro)
      show "container (set_field j k ?y')" using c by simp
    next
      fix kv assume "kv \<in> set (fields (set_field j k ?y'))"
      with c k have "kv \<in> set (set_prop k ?y' (fields j))"
        by (simp add: fields_set_field)
      with d have "kv = (k, ?y') \<or> (kv \<in> set (fields j) \<and> fst kv \<noteq> k)"
        by (auto simp: keys_distinct_def dest: set_set_prop)
      then show "snd kv \<noteq> undefinedSymbol \<and> covered (snd kv) {r. fst kv # r \<in> ?Q'}"
      proof
        assume kv: "kv = (k, ?y')"
        from get_field_in_fields [OF d k] covered_fields [OF Cons.prems(3) False c]
        have y: "?y \<noteq> undefinedSymbol" and cy: "covered ?y {r. k # r \<in> Q}"
          by force+
        from restore_map_at [OF v] have "restore ?y' = restore ?y" .
        with y have y': "?y' \<noteq> undefinedSymbol"
          by (metis restore_eq_sentinel)
        from Cons.IH [OF wfy v cy]
        have "covered ?y' (({r. k # r \<in> Q} - {q}) \<union> ?P)" .
        moreover have "({r. k # r \<in> Q} - {q}) \<union> ?P \<subseteq> {r. k # r \<in> ?Q'}"
          by auto
        ultimately have "covered ?y' {r. k # r \<in> ?Q'}" by (rule covered_mono)
        with y' kv show ?thesis by simp
      next
        assume kv: "kv \<in> set (fields j) \<and> fst kv \<noteq> k"
        with covered_fields [OF Cons.prems(3) False c, of kv]
        have a: "snd kv \<noteq> undefinedSymbol" and b: "covered (snd kv) {r. fst kv # r \<in> Q}"
          by simp_all
        from kv have "{r. fst kv # r \<in> Q} \<subseteq> {r. fst kv # r \<in> ?Q'}" by auto
        with b have "covered (snd kv) {r. fst kv # r \<in> ?Q'}" by (rule covered_mono)
        with a show ?thesis by simp
      qed
    qed
    then show ?thesis by simp
  qed
qed

subsection \<open>The outer loop\<close>

lemma Object_keys_object: "is_object c \<Longrightarrow> Object_keys c = Inr (map fst (fields c))"
  by (auto simp: Object_keys_def is_object_def)

lemma weight_via_restore: "restore a = restore b \<Longrightarrow> weight a = weight b"
  by (metis weight_restore)

lemma sweep_loop_queue:
  assumes "wf_value j" and "\<forall>q \<in> set Q. valid_path j q \<and> is_object (get_at j q)"
    and "covered j (set Q)"
  shows "sweep_loop j Q = Some (Inr (restore j))"
  using assms
proof (induction "sum_list (map (\<lambda>q. weight (get_at j q)) Q)" arbitrary: j Q rule: less_induct)
  case less
  show ?case
  proof (cases Q)
    case Nil
    with less.prems(3) have "restore j = j" by (simp add: covered_empty)
    with Nil show ?thesis by (simp add: sweep_loop.simps [of j "[]"])
  next
    case (Cons q rest)
    let ?c = "get_at j q"
    let ?j' = "set_at j q (restore1 ?c)"
    let ?Q' = "rest @ map (\<lambda>k. q @ [k]) (pushed ?c)"
    from less.prems(2) Cons have vq: "valid_path j q" and oq: "is_object ?c" by simp_all
    from less.prems(1) have dc: "keys_distinct ?c"
      using wf_value_fields wf_value_get_at by blast
    have step: "sweep_keys q (map fst (fields ?c)) (j, Q) = (?j', Q @ map (\<lambda>k. q @ [k]) (pushed ?c))"
      by (rule sweep_keys_step [OF less.prems(1) vq])
    have unfold: "sweep_loop j Q = sweep_loop ?j' ?Q'"
      by (subst sweep_loop.simps) (simp add: Cons Object_keys_object [OF oq] step [unfolded Cons])
    have r: "restore ?j' = restore j" by (rule restore_map_at [OF vq])
    have wf': "wf_value ?j'"
      using less.prems(1) r by (metis wf_value_restore)
    have old: "valid_path ?j' p \<and> is_object (get_at ?j' p) \<and> weight (get_at ?j' p) = weight (get_at j p)"
      if "p \<in> set rest" for p
    proof -
      from that less.prems(2) Cons have "valid_path j p" "is_object (get_at j p)" by simp_all
      from restore_eq_path [OF r this]
      have "valid_path ?j' p" and e: "restore (get_at ?j' p) = restore (get_at j p)" by simp_all
      moreover from e \<open>is_object (get_at j p)\<close> have "is_object (get_at ?j' p)"
        by (metis is_object_restore)
      moreover from e have "weight (get_at ?j' p) = weight (get_at j p)"
        by (rule weight_via_restore)
      ultimately show ?thesis by simp
    qed
    have new: "valid_path ?j' (q @ [k]) \<and> is_object (get_at ?j' (q @ [k])) \<and>
        weight (get_at ?j' (q @ [k])) = weight (get_field ?c k)"
      if "k \<in> set (pushed ?c)" for k
    proof -
      have g: "get_at ?j' q = restore1 ?c" by (rule get_set_same [OF vq])
      from pushed_is_object [OF dc that] have o: "is_object (get_field ?c k)" .
      have "valid_path ?j' (q @ [k])"
        using valid_set_same [OF vq] pushed_container [OF that] pushed_in_keys [OF that]
        by (simp add: valid_path_append g fields_restore1 image_image)
      moreover have "get_at ?j' (q @ [k]) = get_field ?c k"
        by (simp add: get_at_append g get_field_restore1 clean_object [OF o])
      ultimately show ?thesis using o by simp
    qed
    have inv': "\<forall>p \<in> set ?Q'. valid_path ?j' p \<and> is_object (get_at ?j' p)"
      using old new by auto
    have cov': "covered ?j' (set ?Q')"
    proof -
      from less.prems(3) have "covered ?j' ((set Q - {q}) \<union> (\<lambda>k. q @ [k]) ` set (pushed ?c))"
        by (rule covered_step [OF less.prems(1) vq])
      moreover have "(set Q - {q}) \<union> (\<lambda>k. q @ [k]) ` set (pushed ?c) \<subseteq> set ?Q'"
        using Cons by auto
      ultimately show ?thesis by (rule covered_mono)
    qed
    have m1: "map (\<lambda>p. weight (get_at ?j' p)) rest = map (\<lambda>p. weight (get_at j p)) rest"
      by (rule map_cong [OF refl]) (simp add: old)
    have m2: "map (\<lambda>k. weight (get_at ?j' (q @ [k]))) (pushed ?c) =
        map (\<lambda>k. weight (get_field ?c k)) (pushed ?c)"
      by (rule map_cong [OF refl]) (simp add: new)
    have "sum_list (map (\<lambda>p. weight (get_at ?j' p)) ?Q') =
        sum_list (map (\<lambda>p. weight (get_at j p)) rest) +
        sum_list (map (\<lambda>k. weight (get_field ?c k)) (pushed ?c))"
      by (simp only: map_append sum_list_append map_map comp_def m1 m2)
    also have "\<dots> < sum_list (map (\<lambda>p. weight (get_at j p)) rest) + weight ?c"
      using pushed_weight [OF dc] by simp
    also have "\<dots> = sum_list (map (\<lambda>p. weight (get_at j p)) Q)"
      using Cons by simp
    finally have "sweep_loop ?j' ?Q' = Some (Inr (restore ?j'))"
      using wf' inv' cov' by (rule less.hyps)
    with unfold r show ?thesis by simp
  qed
qed

lemma undefined_not_sentinel [simp]: "JUndefined \<noteq> undefinedSymbol"
  by (simp add: undefinedSymbol_def)

lemma sentinel_free_restore: "sentinel_free (restore v)"
  by (induction v rule: restore.induct) auto

lemma sweep_loop_root:
  assumes "wf_value j" and "j \<noteq> JNull" and "j \<noteq> JUndefined"
  shows "sweep_loop j [[]] = Some (Inr (restore j))"
proof (cases "is_object j")
  case True
  with assms(1) show ?thesis
    by (intro sweep_loop_queue) (simp_all add: covered_here)
next
  case False
  then have nc: "\<not> container j" using container_is_object by blast
  from assms(1) have "keys_distinct j" by (simp add: wf_value_fields)
  moreover have "pushed j = []"
    using nc pushed_container [of _ j] by (cases "pushed j") auto
  moreover have "restore1 j = j" using nc by (cases j) (simp_all add: container_def)
  ultimately have "sweep_keys [] (map fst (fields j)) (j, [[]]) = (j, [[]])"
    using sweep_keys_step [OF assms(1), of "[]" "[[]]"] by simp
  moreover from assms(2,3) have "Object_keys j = Inr (map fst (fields j))"
    by (simp add: Object_keys_def)
  ultimately have "sweep_loop j [[]] = Some (Inr j)"
    by (simp add: sweep_loop.simps [of j "[[]]"] sweep_loop.simps [of j "[]"])
  with nc show ?thesis by (simp add: restore_not_container)
qed

section \<open>What the host's parser returns\<close>

lemma set_prop_values: "kv \<in> set (set_prop k x kvs) \<Longrightarrow> kv = (k, x) \<or> kv \<in> set kvs"
  by (induction kvs) (auto split: if_splits)

lemma set_prop_keys: "fst ` set (set_prop k x kvs) = insert k (fst ` set kvs)"
  by (induction kvs) auto

lemma distinct_set_prop: "distinct (map fst kvs) \<Longrightarrow> distinct (map fst (set_prop k x kvs))"
  by (induction kvs) (auto simp: set_prop_keys)

lemma build_object_foldl:
  "distinct (map fst acc) \<Longrightarrow> (\<forall>kv \<in> set acc. P (snd kv)) \<Longrightarrow> (\<forall>kv \<in> set ms. P (snd kv)) \<Longrightarrow>
   distinct (map fst (foldl (\<lambda>kvs (k, x). set_prop k x kvs) acc ms)) \<and>
   (\<forall>kv \<in> set (foldl (\<lambda>kvs (k, x). set_prop k x kvs) acc ms). P (snd kv))"
proof (induction ms arbitrary: acc)
  case Nil
  then show ?case by simp
next
  case (Cons m ms)
  obtain k x where m: "m = (k, x)" by (cases m)
  have "distinct (map fst (set_prop k x acc))"
    using Cons.prems(1) by (rule distinct_set_prop)
  moreover have "\<forall>kv \<in> set (set_prop k x acc). P (snd kv)"
    using Cons.prems(2,3) m by (auto dest: set_prop_values)
  moreover have "\<forall>kv \<in> set ms. P (snd kv)" using Cons.prems(3) by simp
  ultimately show ?case using Cons.IH [of "set_prop k x acc"] m by simp
qed

lemma build_object_json:
  "(\<forall>kv \<in> set ms. P (snd kv)) \<Longrightarrow>
     distinct (map fst (build_object ms)) \<and> (\<forall>kv \<in> set (build_object ms). P (snd kv))"
  unfolding build_object_def by (rule build_object_foldl) simp_all

lemma read_json_value:
  "\<forall>v r. read_value h inp = Inr (v, r) \<longrightarrow> json_value v"
  "\<forall>xs r. read_elements h inp = Inr (xs, r) \<longrightarrow> (\<forall>x \<in> set xs. json_value x)"
  "\<forall>kvs r. read_members h inp = Inr (kvs, r) \<longrightarrow> (\<forall>kv \<in> set kvs. json_value (snd kv))"
proof (induction h inp and h inp and h inp rule: read_value_read_elements_read_members.induct)
  case (1 h inp)
  show ?case
  proof (intro allI impI)
    fix v r
    assume rv: "read_value h inp = Inr (v, r)"
    show "json_value v"
    proof (cases "skip_ws inp")
      case Nil
      with rv show ?thesis by (simp add: read_value.simps [of h inp])
    next
      case (Cons c cs)
      show ?thesis
      proof (cases "c = 0x5b")
        case True
        show ?thesis
        proof (cases "skip_ws cs")
          case Nil
          with rv Cons True show ?thesis by (simp add: read_value.simps [of h inp])
        next
          case (Cons d ds)
          show ?thesis
          proof (cases "d = 0x5d")
            case True
            with rv \<open>skip_ws inp = c # cs\<close> \<open>c = 0x5b\<close> Cons show ?thesis
              by (auto simp: read_value.simps [of h inp])
          next
            case False
            from "1.IH"(1) [OF \<open>skip_ws inp = c # cs\<close> \<open>c = 0x5b\<close> Cons False]
            have ih: "\<forall>xs r. read_elements h cs = Inr (xs, r) \<longrightarrow> (\<forall>x \<in> set xs. json_value x)" .
            with rv \<open>skip_ws inp = c # cs\<close> \<open>c = 0x5b\<close> Cons False show ?thesis
              by (auto simp: read_value.simps [of h inp] split: sum.splits)
          qed
        qed
      next
        case nb: False
        show ?thesis
        proof (cases "c = 0x7b")
          case True
          show ?thesis
          proof (cases "skip_ws cs")
            case Nil
            with rv Cons True show ?thesis by (simp add: read_value.simps [of h inp])
          next
            case (Cons d ds)
            show ?thesis
            proof (cases "d = 0x7d")
              case True
              with rv \<open>skip_ws inp = c # cs\<close> \<open>c = 0x7b\<close> Cons show ?thesis
                by (auto simp: read_value.simps [of h inp])
            next
              case False
              from "1.IH"(2) [OF \<open>skip_ws inp = c # cs\<close> nb \<open>c = 0x7b\<close> Cons False]
              have ih: "\<forall>kvs r. read_members h cs = Inr (kvs, r) \<longrightarrow> (\<forall>kv \<in> set kvs. json_value (snd kv))" .
              from rv \<open>skip_ws inp = c # cs\<close> \<open>c = 0x7b\<close> Cons False
              obtain kvs where m: "read_members h cs = Inr (kvs, r)" and v: "v = JObject (build_object kvs)"
                by (auto simp: read_value.simps [of h inp] split: sum.splits)
              from ih m have "\<forall>kv \<in> set kvs. json_value (snd kv)" by blast
              from build_object_json [of kvs json_value, OF this] v show ?thesis by simp
            qed
          qed
        next
          case False
          with rv Cons nb show ?thesis
            by (auto simp: read_value.simps [of h inp] split: option.splits if_splits)
        qed
      qed
    qed
  qed
next
  case (2 h inp)
  show ?case
  proof (intro allI impI)
    fix xs r
    assume re: "read_elements h inp = Inr (xs, r)"
    then obtain x rest where rv: "read_value h inp = Inr (x, rest)"
      by (auto simp: read_elements.simps [of h inp] split: sum.splits)
    with "2.IH"(1) have x: "json_value x" by blast
    from re rv have len: "length rest < length inp"
      by (auto simp: read_elements.simps [of h inp] split: if_splits)
    show "\<forall>x \<in> set xs. json_value x"
    proof (cases "skip_ws rest")
      case Nil
      with re rv len show ?thesis by (simp add: read_elements.simps [of h inp])
    next
      case (Cons c cs)
      show ?thesis
      proof (cases "c = 0x2c")
        case True
        from "2.IH"(2) [OF rv refl len Cons True]
        have "\<forall>xs r. read_elements h cs = Inr (xs, r) \<longrightarrow> (\<forall>x \<in> set xs. json_value x)" .
        with re rv len Cons True x show ?thesis
          by (auto simp: read_elements.simps [of h inp] split: sum.splits)
      next
        case False
        with re rv len Cons x show ?thesis
          by (auto simp: read_elements.simps [of h inp] split: if_splits)
      qed
    qed
  qed
next
  case (3 h inp)
  show ?case
  proof (intro allI impI)
    fix kvs r
    assume rm: "read_members h inp = Inr (kvs, r)"
    then obtain c cs where sk: "skip_ws inp = c # cs" and c: "c = 0x22"
      by (auto simp: read_members.simps [of h inp] split: list.splits if_splits)
    with rm obtain k r1 where rs: "read_string cs = Some (k, r1)"
      by (auto simp: read_members.simps [of h inp] split: option.splits)
    with rm sk c obtain d ds where sk1: "skip_ws r1 = d # ds" and d: "d = 0x3a"
      by (auto simp: read_members.simps [of h inp] split: list.splits if_splits)
    with rm sk c rs obtain x rest where rv: "read_value h ds = Inr (x, rest)"
      by (auto simp: read_members.simps [of h inp] split: sum.splits)
    from "3.IH"(1) [OF sk c rs refl sk1 d] rv have x: "json_value x" by blast
    from rm sk c rs sk1 d rv have len: "length rest < length inp"
      by (auto simp: read_members.simps [of h inp] split: if_splits)
    show "\<forall>kv \<in> set kvs. json_value (snd kv)"
    proof (cases "skip_ws rest")
      case Nil
      with rm sk c rs sk1 d rv len show ?thesis by (simp add: read_members.simps [of h inp])
    next
      case (Cons e es)
      show ?thesis
      proof (cases "e = 0x2c")
        case True
        from "3.IH"(2) [OF sk c rs refl sk1 d rv refl len Cons True]
        have "\<forall>kvs r. read_members h es = Inr (kvs, r) \<longrightarrow> (\<forall>kv \<in> set kvs. json_value (snd kv))" .
        then have ih: "\<And>kvs r. read_members h es = Inr (kvs, r) \<Longrightarrow> \<forall>kv \<in> set kvs. json_value (snd kv)"
          by blast
        from rm sk c rs sk1 d rv len Cons True obtain kvs' where
          m: "read_members h es = Inr (kvs', r)" and kvs: "kvs = (k, x) # kvs'"
          by (auto simp: read_members.simps [of h inp] split: sum.splits)
        from ih [OF m] kvs x show ?thesis by simp
      next
        case False
        with rm sk c rs sk1 d rv len Cons x show ?thesis
          by (auto simp: read_members.simps [of h inp] split: if_splits)
      qed
    qed
  qed
qed

lemma json_value_wf: "json_value v \<Longrightarrow> wf_value v"
  by (induction v rule: json_value.induct) auto


lemma decode_not_string: "\<forall>s. v \<noteq> JString s \<Longrightarrow> decode h v = Inr v"
  by (cases v) (simp_all add: decode_def)

lemma decode_string_leaf: "decode h (JString s) = Inr j \<Longrightarrow> \<not> container j"
  by (auto simp: decode_def container_def Let_def split: if_splits option.splits)

lemma not_container_wf: "\<not> container j \<Longrightarrow> wf_value j"
  by (cases j) (simp_all add: container_def)

lemma reviver_callback_wf:
  assumes "reviver_callback h k v = Inr j" and "wf_value v"
  shows "wf_value j \<and> j \<noteq> JUndefined"
proof -
  from assms(1) obtain r where d: "decode h v = Inr r"
    and j: "j = (if r = JUndefined then undefinedSymbol else r)"
    by (auto simp: reviver_callback_def split: sum.splits)
  have "wf_value r"
  proof (cases "\<exists>s. v = JString s")
    case True
    with d show ?thesis by (auto dest!: decode_string_leaf intro: not_container_wf)
  next
    case False
    then have "decode h v = Inr v" by (intro decode_not_string) simp
    with d assms(2) show ?thesis by simp
  qed
  with j show ?thesis by (simp add: undefinedSymbol_def)
qed

lemma internalize_wf:
  "\<forall>j. internalize (reviver_callback h) name v = Inr j \<longrightarrow> wf_value v \<longrightarrow> wf_value j \<and> j \<noteq> JUndefined"
  "\<forall>ys. internalize_elements (reviver_callback h) i xs = Inr ys \<longrightarrow> (\<forall>x \<in> set xs. wf_value x) \<longrightarrow>
     (\<forall>y \<in> set ys. wf_value y)"
  "\<forall>kvs'. internalize_members (reviver_callback h) kvs = Inr kvs' \<longrightarrow> (\<forall>kv \<in> set kvs. wf_value (snd kv)) \<longrightarrow>
     (\<forall>kv \<in> set kvs'. wf_value (snd kv)) \<and> set (map fst kvs') \<subseteq> set (map fst kvs) \<and>
     (distinct (map fst kvs) \<longrightarrow> distinct (map fst kvs'))"
proof (induction "reviver_callback h" name v and "reviver_callback h" i xs and "reviver_callback h" kvs
    rule: internalize_internalize_elements_internalize_members.induct)
  case (1 name xs)
  show ?case
  proof (intro allI impI)
    fix j
    assume a: "internalize (reviver_callback h) name (JArray xs) = Inr j" and w: "wf_value (JArray xs)"
    from a obtain ys where e: "internalize_elements (reviver_callback h) 0 xs = Inr ys"
      and r: "reviver_callback h name (JArray ys) = Inr j"
      by (auto split: sum.splits)
    from 1 e w have "wf_value (JArray ys)" by simp
    with r show "wf_value j \<and> j \<noteq> JUndefined" by (rule reviver_callback_wf)
  qed
next
  case (2 name kvs)
  show ?case
  proof (intro allI impI)
    fix j
    assume a: "internalize (reviver_callback h) name (JObject kvs) = Inr j" and w: "wf_value (JObject kvs)"
    from a obtain kvs' where e: "internalize_members (reviver_callback h) kvs = Inr kvs'"
      and r: "reviver_callback h name (JObject kvs') = Inr j"
      by (auto split: sum.splits)
    from 2 e w have "wf_value (JObject kvs')" by simp
    with r show "wf_value j \<and> j \<noteq> JUndefined" by (rule reviver_callback_wf)
  qed
next
  case (12 i x xs)
  show ?case
  proof (intro allI impI)
    fix ys
    assume a: "internalize_elements (reviver_callback h) i (x # xs) = Inr ys"
      and w: "\<forall>x \<in> set (x # xs). wf_value x"
    from a obtain x' where x': "internalize (reviver_callback h) (String_nat i) x = Inr x'"
      by (auto split: sum.splits)
    with a obtain xs' where xs': "internalize_elements (reviver_callback h) (Suc i) xs = Inr xs'"
      and ys: "ys = x' # xs'"
      by (auto split: sum.splits)
    from "12.hyps"(1) x' w have "wf_value x'" by simp
    moreover from "12.hyps"(2) [OF x'] xs' w have "\<forall>y \<in> set xs'. wf_value y" by simp
    ultimately show "\<forall>y \<in> set ys. wf_value y" using ys by simp
  qed
next
  case (14 k x kvs)
  show ?case
  proof (intro allI impI)
    fix kvs'
    assume a: "internalize_members (reviver_callback h) ((k, x) # kvs) = Inr kvs'"
      and w: "\<forall>kv \<in> set ((k, x) # kvs). wf_value (snd kv)"
    from a obtain x' where x': "internalize (reviver_callback h) k x = Inr x'"
      by (auto split: sum.splits)
    with a obtain ms where ms: "internalize_members (reviver_callback h) kvs = Inr ms"
      and kvs': "kvs' = (if x' = JUndefined then ms else (k, x') # ms)"
      by (auto split: sum.splits)
    from "14.hyps"(1) x' w have wx: "wf_value x'" by simp
    from "14.hyps"(2) [OF x'] ms w
    have ih: "(\<forall>kv \<in> set ms. wf_value (snd kv)) \<and> set (map fst ms) \<subseteq> set (map fst kvs) \<and>
       (distinct (map fst kvs) \<longrightarrow> distinct (map fst ms))" by simp
    with wx kvs' show "(\<forall>kv \<in> set kvs'. wf_value (snd kv)) \<and>
       set (map fst kvs') \<subseteq> set (map fst ((k, x) # kvs)) \<and>
       (distinct (map fst ((k, x) # kvs)) \<longrightarrow> distinct (map fst kvs'))"
      by auto
  qed
qed (auto dest: reviver_callback_wf)

lemma JSON_parse_wf:
  assumes "JSON_parse h (reviver_callback h) text = Inr json"
  shows "wf_value json \<and> json \<noteq> JUndefined"
proof -
  from assms obtain v rest where rv: "read_value h text = Inr (v, rest)"
    and i: "internalize (reviver_callback h) [] v = Inr json"
    by (auto simp: JSON_parse_def split: sum.splits if_splits)
  from rv have "json_value v" using read_json_value(1) by blast
  then have "wf_value v" by (rule json_value_wf)
  with i internalize_wf(1) show ?thesis by blast
qed

text \<open>
  Claim C8. Whenever the host's parser, with the function that \<open>parse\<close> hands to it,
  returns a value \<open>json\<close> other than \<open>null\<close>, the loop over the queue ends with the
  queue empty and without an error, and \<open>parse\<close> returns \<open>restore json\<close>: the tree
  \<open>json\<close> with \<open>undefined\<close> in place of the sentinel in every field of every object and
  array at every depth, all other fields and all keys as they were. No field of the
  result holds the sentinel.
\<close>

theorem sweep_restores_every_field:
  assumes "JSON_parse h (reviver_callback h) text = Inr json" and "json \<noteq> JNull"
  shows "parse h text = Some (Inr (restore json)) \<and> sentinel_free (restore json)"
proof -
  from assms(1) have "wf_value json" "json \<noteq> JUndefined"
    using JSON_parse_wf by blast+
  with assms(2) have "sweep_loop json [[]] = Some (Inr (restore json))"
    by (intro sweep_loop_root)
  with assms(1) show ?thesis by (simp add: parse_def sentinel_free_restore)
qed

theorem sweep_restores_every_field_witness:
  \<open>JSON_parse host0 (reviver_callback host0) (lit ''{"a":"data:undefined,","b":[{"c":"data:undefined,"},7]}'')
     = Inr (JObject [(lit ''a'', undefinedSymbol),
                     (lit ''b'', JArray [JObject [(lit ''c'', undefinedSymbol)], JNumber (Fin 7)])])
   \<and> parse host0 (lit ''{"a":"data:undefined,","b":[{"c":"data:undefined,"},7]}'')
     = Some (Inr (JObject [(lit ''a'', JUndefined),
                           (lit ''b'', JArray [JObject [(lit ''c'', JUndefined)], JNumber (Fin 7)])]))
   \<and> sentinel_free (JObject [(lit ''a'', JUndefined),
                           (lit ''b'', JArray [JObject [(lit ''c'', JUndefined)], JNumber (Fin (7 :: int))])])\<close>
  using sweep_restores_every_field [of host0 \<open>lit ''{"a":"data:undefined,","b":[{"c":"data:undefined,"},7]}''\<close>
      "JObject [(lit ''a'', undefinedSymbol),
                (lit ''b'', JArray [JObject [(lit ''c'', undefinedSymbol)], JNumber (Fin 7)])]"]
  by (simp add: JSON_parse_def read_value.simps read_elements.simps read_members.simps lit_def skip_ws_def
      is_ws_def prepend_def build_object_def json_number_def int_part_def frac_part_def exp_part_def
      num_char_def is_digit_def host0_def read_int_def read_nat_def reviver_callback_def decode_def
      token_shape_def parseDataURL_def element_def Let_def undefinedSymbol_def)

section \<open>The round trip\<close>

subsection \<open>String literals\<close>

lemma hex_value_digit_char: "d < 16 \<Longrightarrow> hex_value (digit_char d) = Some d"
proof -
  assume "d < 16"
  then have "d = 0 \<or> d = 1 \<or> d = 2 \<or> d = 3 \<or> d = 4 \<or> d = 5 \<or> d = 6 \<or> d = 7 \<or> d = 8 \<or> d = 9 \<or>
      d = 10 \<or> d = 11 \<or> d = 12 \<or> d = 13 \<or> d = 14 \<or> d = 15"
    by arith
  then show ?thesis
    by (elim disjE) (simp_all add: hex_value_def digit_char_def)
qed

lemma hex_digits_value:
  "((n div 4096 * 16 + n div 256 mod 16) * 16 + n div 16 mod 16) * 16 + n mod 16 = (n :: nat)"
proof -
  have a: "n div 256 = n div 16 div 16" and b: "n div 4096 = n div 16 div 16 div 16"
    by (simp_all add: div_mult2_eq [symmetric])
  show ?thesis unfolding a b by (simp only: div_mult_mod_eq)
qed

lemma hex4_value_digits:
  "hex4_value (digit_char (unat c div 4096)) (digit_char (unat c div 256 mod 16))
     (digit_char (unat c div 16 mod 16)) (digit_char (unat c mod 16)) = Some c"
proof -
  have "unat c < 65536"
    using unsigned_less [of c, where 'a = nat] by simp
  then have "unat c div 4096 < 16" by simp
  then have v: "hex_value (digit_char (unat c div 4096)) = Some (unat c div 4096)"
    "hex_value (digit_char (unat c div 256 mod 16)) = Some (unat c div 256 mod 16)"
    "hex_value (digit_char (unat c div 16 mod 16)) = Some (unat c div 16 mod 16)"
    "hex_value (digit_char (unat c mod 16)) = Some (unat c mod 16)"
    by (simp_all add: hex_value_digit_char)
  have "(of_nat (((unat c div 4096 * 16 + unat c div 256 mod 16) * 16 + unat c div 16 mod 16) * 16
      + unat c mod 16) :: 16 word) = of_nat (unat c)"
    by (simp only: hex_digits_value)
  also have "\<dots> = c" by simp
  finally show ?thesis
    unfolding hex4_value_def v by (simp only: prod.case option.case)
qed

lemma not_escapable_plain: "\<not> rx_escapable c \<Longrightarrow> c \<noteq> 0x22 \<and> c \<noteq> 0x5c \<and> \<not> c < 0x20"
  by (auto simp: rx_escapable_def word_less_nat_alt word_le_nat_alt)

lemma read_string_unit:
  "read_string ((if rx_escapable c then escape_unit c else [c]) @ tail) = prepend c (read_string tail)"
proof (cases "rx_escapable c")
  case False
  with not_escapable_plain [of c] show ?thesis by simp
next
  case True
  show ?thesis
  proof (cases "meta c")
    case None
    with True show ?thesis
      by (simp add: escape_unit_hex hex4_value_digits)
  next
    case (Some m)
    then have "c = 0x08 \<or> c = 0x09 \<or> c = 0x0a \<or> c = 0x0c \<or> c = 0x0d \<or> c = 0x22 \<or> c = 0x5c"
      by (auto simp: meta_def split: if_splits)
    with True show ?thesis
      by (auto simp: escape_unit_def meta_def unescape_def)
  qed
qed

lemma read_string_body:
  "read_string (concat (map (\<lambda>c. if rx_escapable c then escape_unit c else [c]) s) @ 0x22 # rest)
     = Some (s, rest)"
proof (induction s)
  case Nil
  show ?case by simp
next
  case (Cons c s)
  have "read_string (concat (map (\<lambda>c. if rx_escapable c then escape_unit c else [c]) (c # s)) @ 0x22 # rest)
      = read_string ((if rx_escapable c then escape_unit c else [c]) @
          (concat (map (\<lambda>c. if rx_escapable c then escape_unit c else [c]) s) @ 0x22 # rest))"
    by simp
  also have "\<dots> = prepend c (Some (s, rest))"
    unfolding read_string_unit Cons.IH ..
  finally show ?case by (simp add: prepend_def)
qed

lemma quote_body: "quote s = 0x22 # body s @ [0x22]"
  by (simp add: quote_concat body_def)

lemma read_string_quote: "read_string (body s @ 0x22 # rest) = Some (s, rest)"
  unfolding body_def by (rule read_string_body)

lemma skip_ws_start: "\<not> is_ws c \<Longrightarrow> skip_ws (c # cs) = c # cs"
  by (simp add: skip_ws_def)

lemma read_value_quote: "read_value h (quote s @ rest) = Inr (JString s, rest)"
  by (simp add: quote_body read_value.simps [of h "34 # body s @ 34 # rest"] skip_ws_start is_ws_def
      read_string_quote)

subsection \<open>Number tokens\<close>

lemma digits_run: "\<exists>p. s = p @ dropWhile is_digit s \<and> list_all num_char p"
proof (intro exI conjI)
  show "s = takeWhile is_digit s @ dropWhile is_digit s" by simp
  show "list_all num_char (takeWhile is_digit s)"
    by (induction s) (simp_all add: num_char_def)
qed

lemma digits1_run: "digits1 s = Some r \<Longrightarrow> \<exists>p. s = p @ r \<and> list_all num_char p"
  using digits_run [of s] by (auto simp: digits1_def split: if_splits)

lemma int_part_run: "int_part s = Some r \<Longrightarrow> \<exists>p. s = p @ r \<and> list_all num_char p"
proof (cases s)
  case Nil
  assume "int_part s = Some r"
  with Nil show ?thesis by (simp add: int_part_def)
next
  case (Cons c cs)
  assume a: "int_part s = Some r"
  show ?thesis
  proof (cases "c = 0x30")
    case True
    with a Cons have "s = [c] @ r" "list_all num_char [c]"
      by (simp_all add: int_part_def num_char_def is_digit_def)
    then show ?thesis by blast
  next
    case False
    with a Cons have d: "is_digit c" and r: "r = dropWhile is_digit cs"
      by (auto simp: int_part_def split: if_splits)
    from digits_run [of cs] obtain p where "cs = p @ dropWhile is_digit cs" "list_all num_char p"
      by blast
    with Cons d r have "s = (c # p) @ r" "list_all num_char (c # p)"
      by (simp_all add: num_char_def)
    then show ?thesis by blast
  qed
qed

lemma frac_part_run: "frac_part s = Some r \<Longrightarrow> \<exists>p. s = p @ r \<and> list_all num_char p"
proof (cases s)
  case Nil
  assume "frac_part s = Some r"
  with Nil show ?thesis by (simp add: frac_part_def)
next
  case (Cons c cs)
  assume a: "frac_part s = Some r"
  show ?thesis
  proof (cases "c = 0x2e")
    case True
    with a Cons have "digits1 cs = Some r" by (simp add: frac_part_def)
    from digits1_run [OF this] obtain p where "cs = p @ r" "list_all num_char p" by blast
    with Cons True have "s = (c # p) @ r" "list_all num_char (c # p)"
      by (simp_all add: num_char_def)
    then show ?thesis by blast
  next
    case False
    with a Cons have "s = [] @ r" "list_all num_char []" by (simp_all add: frac_part_def)
    then show ?thesis by blast
  qed
qed

lemma exp_part_run: "exp_part s = Some r \<Longrightarrow> \<exists>p. s = p @ r \<and> list_all num_char p"
proof (cases s)
  case Nil
  assume "exp_part s = Some r"
  with Nil show ?thesis by (simp add: exp_part_def)
next
  case (Cons c cs)
  assume a: "exp_part s = Some r"
  show ?thesis
  proof (cases "c = 0x45 \<or> c = 0x65")
    case False
    with a Cons have "s = [] @ r" "list_all num_char []" by (simp_all add: exp_part_def)
    then show ?thesis by blast
  next
    case True
    then have nc: "num_char c" by (auto simp: num_char_def)
    show ?thesis
    proof (cases cs)
      case Nil
      with a Cons True show ?thesis by (simp add: exp_part_def)
    next
      case cs: (Cons d ds)
      show ?thesis
      proof (cases "d = 0x2b \<or> d = 0x2d")
        case sign: True
        with a Cons True cs have "digits1 ds = Some r" by (simp add: exp_part_def)
        from digits1_run [OF this] obtain p where "ds = p @ r" "list_all num_char p" by blast
        with Cons cs nc sign have "s = (c # d # p) @ r" "list_all num_char (c # d # p)"
          by (auto simp: num_char_def)
        then show ?thesis by blast
      next
        case False
        with a Cons True cs have "digits1 cs = Some r" by (simp add: exp_part_def)
        from digits1_run [OF this] obtain p where "cs = p @ r" "list_all num_char p" by blast
        with Cons nc have "s = (c # p) @ r" "list_all num_char (c # p)" by simp_all
        then show ?thesis by blast
      qed
    qed
  qed
qed

lemma json_number_chars:
  assumes "json_number t"
  shows "list_all num_char t"
proof -
  define u where "u = (case t of [] \<Rightarrow> [] | c # cs \<Rightarrow> if c = 0x2d then cs else t)"
  from assms obtain r1 r2 where i: "int_part u = Some r1" and f: "frac_part r1 = Some r2"
    and e: "exp_part r2 = Some []"
    by (auto simp: json_number_def u_def split: option.splits)
  from int_part_run [OF i] frac_part_run [OF f] exp_part_run [OF e]
  have "list_all num_char u" by auto
  then show ?thesis
    by (cases t) (auto simp: u_def num_char_def split: if_splits)
qed

lemma json_number_first:
  assumes "json_number t"
  shows "t \<noteq> [] \<and> (hd t = 0x2d \<or> is_digit (hd t))"
proof (cases t)
  case Nil
  with assms show ?thesis by (simp add: json_number_def int_part_def)
next
  case (Cons c cs)
  with assms show ?thesis
    by (auto simp: json_number_def int_part_def is_digit_def split: option.splits if_splits)
qed

lemma takeWhile_token:
  "list_all num_char t \<Longrightarrow> delimited rest \<Longrightarrow>
     takeWhile num_char (t @ rest) = t \<and> dropWhile num_char (t @ rest) = rest"
  by (induction t) (auto simp: delimited_def split: list.splits)

lemma read_value_number:
  assumes "json_number t" and "delimited rest"
  shows "read_value h (t @ rest) = Inr (JNumber (StringToNumber h t), rest)"
proof -
  from json_number_first [OF assms(1)] obtain c cs where t: "t = c # cs"
    and c: "c = 0x2d \<or> is_digit c"
    by (cases t) auto
  from c have ws: "\<not> is_ws c" by (auto simp: is_ws_def is_digit_def)
  from c have ne: "c \<noteq> 0x5b" "c \<noteq> 0x7b" "c \<noteq> 0x22" "c \<noteq> 0x74" "c \<noteq> 0x66" "c \<noteq> 0x6e"
    by (auto simp: is_digit_def)
  from takeWhile_token [OF json_number_chars [OF assms(1)] assms(2)]
  have tw: "takeWhile num_char (c # cs @ rest) = c # cs" "dropWhile num_char (c # cs @ rest) = rest"
    using t by simp_all
  have "skip_ws (c # cs @ rest) = c # cs @ rest" using ws by (rule skip_ws_start)
  then show ?thesis
    using ne assms(1) tw unfolding t
    by (simp add: read_value.simps [of h "c # cs @ rest"] lit_def)
qed

subsection \<open>Texts of values\<close>

lemma goodI:
  assumes "str h [] None [] v = Some t" and "starts_value t"
    and "\<And>rest. delimited rest \<Longrightarrow> read_value h (t @ rest) = Inr (plain h v, rest)"
  shows "good h v"
proof -
  from assms(2) have "t \<noteq> []" by (auto simp: starts_value_def)
  with assms(1) have "enc h v = t" by (simp add: enc_def or_null_def)
  with assms show ?thesis by (simp add: good_def)
qed

lemma starts_value_quote [simp]: "starts_value (quote s @ r)"
  by (simp add: quote_body starts_value_def is_ws_def)

lemma good_quoted:
  assumes "str h [] None [] v = Some (quote s)" and "plain h v = JString s"
  shows "good h v"
proof (rule goodI [OF assms(1)])
  show "starts_value (quote s)" using starts_value_quote [of s "[]"] by simp
  show "read_value h (quote s @ rest) = Inr (plain h v, rest)" for rest
    by (simp add: read_value_quote assms(2))
qed

lemma good_literals: "good h JNull" "good h (JBool b)"
proof -
  show "good h JNull"
  proof (rule goodI)
    show "str h [] None [] JNull = Some (lit ''null'')" by simp
    show "starts_value (lit ''null'')" by (simp add: starts_value_def lit_def is_ws_def)
    show "read_value h (lit ''null'' @ rest) = Inr (plain h JNull, rest)" for rest
      by (subst read_value.simps) (simp add: lit_def skip_ws_def is_ws_def)
  qed
  show "good h (JBool b)"
  proof (rule goodI)
    show "str h [] None [] (JBool b) = Some (if b then lit ''true'' else lit ''false'')" by simp
    show "starts_value (if b then lit ''true'' else lit ''false'')"
      by (simp add: starts_value_def lit_def is_ws_def)
    show "read_value h ((if b then lit ''true'' else lit ''false'') @ rest) = Inr (plain h (JBool b), rest)"
      for rest
      by (subst read_value.simps) (simp add: lit_def skip_ws_def is_ws_def)
  qed
qed

lemma good_number:
  assumes "round_trip_value h (JNumber x)"
  shows "good h (JNumber x)"
proof (cases x)
  case (Fin n)
  with assms have j: "json_number (NumberToString h n)" by simp
  show ?thesis
  proof (rule goodI)
    show "str h [] None [] (JNumber x) = Some (NumberToString h n)" using Fin by simp
    from json_number_first [OF j] show "starts_value (NumberToString h n)"
      by (cases "NumberToString h n") (auto simp: starts_value_def is_ws_def is_digit_def)
    show "read_value h (NumberToString h n @ rest) = Inr (plain h (JNumber x), rest)"
      if "delimited rest" for rest
      using read_value_number [OF j that] Fin by simp
  qed
qed (auto intro!: good_quoted)

subsection \<open>Arrays and objects\<close>

lemma join_cons: "join sep (t # ts) = t @ (if ts = [] then [] else sep @ join sep ts)"
  by (cases ts) simp_all

lemma starts_value_cons:
  assumes "starts_value t"
  obtains d ds where "t = d # ds" and "\<not> is_ws d" and "d \<noteq> 0x5d" and "d \<noteq> 0x7d"
  using assms by (cases t) (auto simp: starts_value_def)

lemma delimited_separators [simp]: "delimited (0x2c # r)" "delimited (0x5d # r)" "delimited (0x7d # r)"
  by (simp_all add: delimited_def num_char_def is_digit_def)

lemma skip_ws_separators [simp]:
  "skip_ws (0x2c # r) = 0x2c # r" "skip_ws (0x5d # r) = 0x5d # r" "skip_ws (0x7d # r) = 0x7d # r"
  "skip_ws (0x3a # r) = 0x3a # r" "skip_ws (0x22 # r) = 0x22 # r"
  "skip_ws (0x5b # r) = 0x5b # r" "skip_ws (0x7b # r) = 0x7b # r"
  by (simp_all add: skip_ws_def is_ws_def)

lemma good_read:
  "good h x \<Longrightarrow> delimited rest \<Longrightarrow> read_value h (enc h x @ rest) = Inr (plain h x, rest)"
  by (simp add: good_def)

lemma good_nonempty: "good h x \<Longrightarrow> enc h x \<noteq> []"
  by (auto simp: good_def starts_value_def)

lemma read_elements_join:
  assumes "\<forall>x \<in> set xs. good h x" and "xs \<noteq> []"
  shows "read_elements h (join [0x2c] (map (enc h) xs) @ 0x5d # rest) = Inr (map (plain h) xs, rest)"
  using assms
proof (induction xs)
  case Nil
  then show ?case by simp
next
  case (Cons x xs)
  from Cons.prems have g: "good h x" by simp
  note ne = good_nonempty [OF g]
  show ?case
  proof (cases "xs = []")
    case True
    have "read_value h (enc h x @ 0x5d # rest) = Inr (plain h x, 0x5d # rest)"
      using g by (intro good_read) simp_all
    with True ne show ?thesis
      by (simp add: read_elements.simps [of h "enc h x @ 0x5d # rest"])
  next
    case False
    define tail where "tail = join [0x2c] (map (enc h) xs) @ 0x5d # rest"
    from False have inp: "join [0x2c] (map (enc h) (x # xs)) @ 0x5d # rest = enc h x @ 0x2c # tail"
      by (simp add: join_cons tail_def)
    have "read_value h (enc h x @ 0x2c # tail) = Inr (plain h x, 0x2c # tail)"
      using g by (intro good_read) simp_all
    moreover have "read_elements h tail = Inr (map (plain h) xs, rest)"
      unfolding tail_def using Cons.prems False by (intro Cons.IH) simp_all
    ultimately show ?thesis
      unfolding inp using ne by (simp add: read_elements.simps [of h "enc h x @ 0x2c # tail"])
  qed
qed

lemma read_members_join:
  assumes "\<forall>kv \<in> set kvs. good h (snd kv)" and "kvs \<noteq> []"
  shows "read_members h (join [0x2c] (map (member_text h) kvs) @ 0x7d # rest)
     = Inr (map (\<lambda>kv. (fst kv, plain h (snd kv))) kvs, rest)"
  using assms
proof (induction kvs)
  case Nil
  then show ?case by simp
next
  case (Cons kv kvs)
  obtain k x where kv: "kv = (k, x)" by (cases kv)
  from Cons.prems kv have g: "good h x" by simp
  note ne = good_nonempty [OF g]
  have key: "read_string (body k @ 0x22 # 0x3a # r) = Some (k, 0x3a # r)" for r
    by (rule read_string_quote)
  show ?case
  proof (cases "kvs = []")
    case True
    have "read_value h (enc h x @ 0x7d # rest) = Inr (plain h x, 0x7d # rest)"
      using g by (intro good_read) simp_all
    with True ne kv show ?thesis
      by (simp add: member_text_def quote_body key
          read_members.simps [of h "34 # body k @ 34 # 58 # enc h x @ 125 # rest"])
  next
    case False
    define tail where "tail = join [0x2c] (map (member_text h) kvs) @ 0x7d # rest"
    from False kv have inp: "join [0x2c] (map (member_text h) (kv # kvs)) @ 0x7d # rest
        = 0x22 # body k @ 0x22 # 0x3a # enc h x @ 0x2c # tail"
      by (simp add: join_cons tail_def member_text_def quote_body)
    have "read_value h (enc h x @ 0x2c # tail) = Inr (plain h x, 0x2c # tail)"
      using g by (intro good_read) simp_all
    moreover have "read_members h tail = Inr (map (\<lambda>kv. (fst kv, plain h (snd kv))) kvs, rest)"
      unfolding tail_def using Cons.prems False by (intro Cons.IH) simp_all
    ultimately show ?thesis
      unfolding inp using ne kv
      by (simp add: key read_members.simps [of h "34 # body k @ 34 # 58 # enc h x @ 44 # tail"])
  qed
qed

lemma set_prop_new: "k \<notin> fst ` set acc \<Longrightarrow> set_prop k x acc = acc @ [(k, x)]"
  by (induction acc) auto

lemma build_object_foldl_distinct:
  "distinct (map fst (acc @ ms)) \<Longrightarrow> foldl (\<lambda>kvs (k, x). set_prop k x kvs) acc ms = acc @ ms"
proof (induction ms arbitrary: acc)
  case Nil
  then show ?case by simp
next
  case (Cons m ms)
  obtain k x where m: "m = (k, x)" by (cases m)
  from Cons.prems m have "k \<notin> fst ` set acc" by auto
  then have "set_prop k x acc = acc @ [(k, x)]" by (rule set_prop_new)
  moreover from Cons.prems m have "distinct (map fst ((acc @ [(k, x)]) @ ms))" by simp
  ultimately show ?case using Cons.IH [of "acc @ [(k, x)]"] m by simp
qed

lemma build_object_distinct: "distinct (map fst ms) \<Longrightarrow> build_object ms = ms"
  unfolding build_object_def using build_object_foldl_distinct [of "[]" ms] by simp

lemma good_array:
  assumes "\<forall>x \<in> set xs. good h x"
  shows "good h (JArray xs)"
proof (rule goodI)
  have "(\<lambda>x. or_null (str h [] None [] x)) = enc h"
    by (simp add: enc_def fun_eq_iff)
  then show s: "str h [] None [] (JArray xs) = Some (wrap 0x5b 0x5d [] [] (map (enc h) xs))"
    by simp
  show "starts_value (wrap 0x5b 0x5d [] [] (map (enc h) xs))"
    by (simp add: wrap_def starts_value_def is_ws_def)
  show "read_value h (wrap 0x5b 0x5d [] [] (map (enc h) xs) @ rest) = Inr (plain h (JArray xs), rest)"
    for rest
  proof (cases "xs = []")
    case True
    then show ?thesis
      by (simp add: wrap_def read_value.simps [of h "91 # 93 # rest"])
  next
    case False
    then obtain x ys where xs: "xs = x # ys" by (cases xs) auto
    with assms have "starts_value (enc h x)" by (simp add: good_def)
    then obtain d ds where d: "enc h x = d # ds" "\<not> is_ws d" "d \<noteq> 0x5d"
      by (rule starts_value_cons)
    define cs where "cs = join [0x2c] (map (enc h) xs) @ 0x5d # rest"
    have "\<exists>r. cs = d # r" unfolding cs_def xs by (simp add: join_cons d)
    then obtain r where r: "cs = d # r" ..
    with d have sk: "skip_ws cs = d # r" by (simp add: skip_ws_start)
    have "read_elements h cs = Inr (map (plain h) xs, rest)"
      unfolding cs_def using assms False by (rule read_elements_join)
    with sk d(3) have "read_value h (0x5b # cs) = Inr (JArray (map (plain h) xs), rest)"
      by (simp add: read_value.simps [of h "91 # cs"])
    with False show ?thesis by (simp add: wrap_def cs_def)
  qed
qed

lemma concat_singletons: "concat (map (\<lambda>x. [f x]) xs) = map f xs"
  by (induction xs) simp_all

lemma good_object:
  assumes "\<forall>kv \<in> set kvs. good h (snd kv)" and "distinct (map fst kvs)"
  shows "good h (JObject kvs)"
proof (rule goodI)
  have "\<forall>kv \<in> set kvs. member [] (fst kv) (str h [] None [] (snd kv)) = [member_text h kv]"
    using assms(1) by (auto simp: good_def member_def member_text_def starts_value_def lit_def)
  then have "concat (map (\<lambda>kv. member [] (fst kv) (str h [] None [] (snd kv))) kvs)
      = concat (map (\<lambda>kv. [member_text h kv]) kvs)"
    by (intro arg_cong [where f = concat] map_cong refl) simp
  then show "str h [] None [] (JObject kvs) = Some (wrap 0x7b 0x7d [] [] (map (member_text h) kvs))"
    by (simp add: concat_singletons)
  show "starts_value (wrap 0x7b 0x7d [] [] (map (member_text h) kvs))"
    by (simp add: wrap_def starts_value_def is_ws_def)
  show "read_value h (wrap 0x7b 0x7d [] [] (map (member_text h) kvs) @ rest) = Inr (plain h (JObject kvs), rest)"
    for rest
  proof (cases "kvs = []")
    case True
    then show ?thesis
      by (simp add: wrap_def read_value.simps [of h "123 # 125 # rest"])
  next
    case False
    then obtain kv ys where kvs: "kvs = kv # ys" by (cases kvs) auto
    define cs where "cs = join [0x2c] (map (member_text h) kvs) @ 0x7d # rest"
    have "\<exists>r. cs = 0x22 # r" unfolding cs_def kvs by (simp add: join_cons member_text_def quote_body)
    then obtain r where r: "cs = 0x22 # r" ..
    then have sk: "skip_ws cs = 0x22 # r" by simp
    have "read_members h cs = Inr (map (\<lambda>kv. (fst kv, plain h (snd kv))) kvs, rest)"
      unfolding cs_def using assms(1) False by (rule read_members_join)
    moreover have "build_object (map (\<lambda>kv. (fst kv, plain h (snd kv))) kvs)
        = map (\<lambda>kv. (fst kv, plain h (snd kv))) kvs"
      using assms(2) by (intro build_object_distinct) (simp add: comp_def)
    ultimately have "read_value h (0x7b # cs) = Inr (JObject (map (\<lambda>kv. (fst kv, plain h (snd kv))) kvs), rest)"
      using sk by (simp add: read_value.simps [of h "123 # cs"])
    with False show ?thesis by (simp add: wrap_def cs_def)
  qed
qed

lemma round_trip_value_good: "round_trip_value h v \<Longrightarrow> good h v"
proof (induction h v rule: plain.induct)
  case (2 h x)
  then show ?case by (rule good_number)
next
  case (5 h xs)
  then show ?case by (intro good_array) simp
next
  case (6 h kvs)
  then show ?case by (intro good_object) simp_all
qed (auto intro: good_literals good_quoted)

subsection \<open>Tokens are decoded\<close>

lemma toString_radix_digits: "set (toString_radix 10 n) \<subseteq> digit_char ` {0..<10}"
proof (induction "10 :: nat" n rule: toString_radix.induct)
  case (1 n)
  show ?case
  proof (cases "n < 10")
    case True
    then show ?thesis by (simp add: toString_radix.simps [of 10 n])
  next
    case False
    with 1 have "set (toString_radix 10 (n div 10)) \<subseteq> digit_char ` {0..<10}" by simp
    moreover have "digit_char (n mod 10) \<in> digit_char ` {0..<10}" by simp
    ultimately show ?thesis using False by (simp add: toString_radix.simps [of 10 n])
  qed
qed

lemma digit_char_no_comma: "d < 10 \<Longrightarrow> digit_char d \<noteq> 0x2c"
  using unat_digit_char [of d] by (auto simp: word_unat_eq_iff)

lemma String_nat_no_comma: "0x2c \<notin> set (String_nat n)"
  using toString_radix_digits [of n] digit_char_no_comma by (fastforce simp: String_nat_def)

lemma String_int_no_comma: "0x2c \<notin> set (String_int i)"
  by (simp add: String_int_def String_nat_no_comma)

lemma String_time_no_comma: "0x2c \<notin> set (String_time t)"
  by (cases t) (simp_all add: String_time_def String_int_no_comma lit_def)

lemma takeWhile_all: "sep \<notin> set p \<Longrightarrow> takeWhile (\<lambda>c. c \<noteq> sep) p = p"
  by (induction p) auto

lemma dropWhile_all: "sep \<notin> set p \<Longrightarrow> dropWhile (\<lambda>c. c \<noteq> sep) p = []"
  by (induction p) auto

lemma split_none: "sep \<notin> set p \<Longrightarrow> split sep p = [p]"
  by (induction p) (auto split: list.splits)

lemma split_prefix: "sep \<notin> set a \<Longrightarrow> split sep (a @ sep # p) = a # split sep p"
  by (induction a) (auto split: list.splits)

lemma takeWhile_prefix: "sep \<notin> set a \<Longrightarrow> takeWhile (\<lambda>c. c \<noteq> sep) (a @ sep # p) = a"
  by (induction a) auto

lemma dropWhile_prefix: "sep \<notin> set a \<Longrightarrow> dropWhile (\<lambda>c. c \<noteq> sep) (a @ sep # p) = sep # p"
  by (induction a) auto

lemma token_toDataURL:
  assumes "0x2c \<notin> set ty" and "0x3a \<notin> set ty" and "ty \<noteq> []" and "0x2c \<notin> set p"
  shows "token_shape (toDataURL ty p)"
    and "tag_type (parseDataURL (toDataURL ty p)) = Some ty"
    and "tag_value (parseDataURL (toDataURL ty p)) = Some p"
proof -
  have t: "toDataURL ty p = lit ''data:'' @ ty @ 0x2c # p"
    by (simp add: toDataURL_def lit_def)
  have "take 5 (toDataURL ty p) = lit ''data:''" "drop 5 (toDataURL ty p) = ty @ 0x2c # p"
    unfolding t by (simp_all add: lit_def)
  with assms show "token_shape (toDataURL ty p)"
    by (simp add: token_shape_def takeWhile_prefix dropWhile_prefix)
  have "0x2c \<notin> set (lit ''data:'' @ ty)" using assms(1) by (simp add: lit_def)
  then have "split 0x2c ((lit ''data:'' @ ty) @ 0x2c # p) = (lit ''data:'' @ ty) # split 0x2c p"
    by (rule split_prefix)
  then have parts: "split 0x2c (toDataURL ty p) = [lit ''data:'' @ ty, p]"
    using assms(4) by (simp add: t split_none)
  have "split 0x3a (lit ''data'' @ 0x3a # ty) = lit ''data'' # split 0x3a ty"
    by (intro split_prefix) (simp add: lit_def)
  then have "split 0x3a (lit ''data:'' @ ty) = [lit ''data'', ty]"
    using assms(2) by (simp add: split_none lit_def)
  with parts show "tag_type (parseDataURL (toDataURL ty p)) = Some ty"
    and "tag_value (parseDataURL (toDataURL ty p)) = Some p"
    by (simp_all add: parseDataURL_def Let_def element_def)
qed

lemma lit_types_differ:
  "lit ''bigint'' \<noteq> lit ''undefined''" "lit ''bigint'' \<noteq> lit ''number''"
  "lit ''date'' \<noteq> lit ''undefined''" "lit ''date'' \<noteq> lit ''number''" "lit ''date'' \<noteq> lit ''bigint''"
  by (simp_all add: lit_def)

lemma decode_bigint:
  "decode h (JString (toDataURL (lit ''bigint'') (String_int i))) =
     (case StringToBigInt h (String_int i) of None \<Rightarrow> Inl SyntaxError | Some j \<Rightarrow> Inr (JBigInt j))"
proof -
  have "0x2c \<notin> set (lit ''bigint'')" "0x3a \<notin> set (lit ''bigint'')" "lit ''bigint'' \<noteq> []"
    by (simp_all add: lit_def)
  note token_toDataURL [OF this String_int_no_comma]
  then show ?thesis by (simp add: decode_def Let_def lit_types_differ)
qed

lemma decode_date:
  "decode h (JString (toDataURL (lit ''date'') (String_time t))) =
     Inr (JDate (TimeClip h (StringToNumber h (String_time t))))"
proof -
  have "0x2c \<notin> set (lit ''date'')" "0x3a \<notin> set (lit ''date'')" "lit ''date'' \<noteq> []"
    by (simp_all add: lit_def)
  note token_toDataURL [OF this String_time_no_comma]
  then show ?thesis by (simp add: decode_def Let_def lit_types_differ)
qed

lemma decode_constant_tokens:
  "decode h (JString (toDataURL (lit ''undefined'') [])) = Inr JUndefined"
  "decode h (JString (toDataURL (lit ''number'') (lit ''NaN''))) = Inr (JNumber NaN)"
  "decode h (JString (toDataURL (lit ''number'') (lit ''Infinity''))) = Inr (JNumber PosInf)"
  "decode h (JString (toDataURL (lit ''number'') (lit ''-Infinity''))) = Inr (JNumber NegInf)"
  by (simp_all add: decode_def token_shape_def parseDataURL_def toDataURL_def element_def lit_def Let_def)

subsection \<open>The walk of the host and the sweep\<close>

lemma mark_not_undefined [simp]: "mark v \<noteq> JUndefined"
  by (cases v) (simp_all add: undefinedSymbol_def)

lemma reviver_callback_container:
  "reviver_callback h name (JArray xs) = Inr (JArray xs)"
  "reviver_callback h name (JObject kvs) = Inr (JObject kvs)"
  by (simp_all add: reviver_callback_def decode_def)

lemma internalize_elements_map:
  assumes "\<forall>x \<in> set xs. \<forall>name. internalize rc name (plain h x) = Inr (mark x)"
  shows "internalize_elements rc i (map (plain h) xs) = Inr (map mark xs)"
  using assms by (induction xs arbitrary: i) simp_all

lemma internalize_members_map:
  assumes "\<forall>kv \<in> set kvs. \<forall>name. internalize rc name (plain h (snd kv)) = Inr (mark (snd kv))"
  shows "internalize_members rc (map (\<lambda>kv. (fst kv, plain h (snd kv))) kvs)
     = Inr (map (\<lambda>kv. (fst kv, mark (snd kv))) kvs)"
  using assms by (induction kvs) auto

lemma internalize_plain:
  "round_trip_value h v \<Longrightarrow> internalize (reviver_callback h) name (plain h v) = Inr (mark v)"
proof (induction h v arbitrary: name rule: plain.induct)
  case (1 h)
  show ?case by (simp add: reviver_callback_def decode_constant_tokens)
next
  case (2 h x)
  then show ?case
    by (cases x) (simp_all add: reviver_callback_def decode_constant_tokens, simp add: decode_def)
next
  case (3 h i)
  then show ?case by (simp add: reviver_callback_def decode_bigint)
next
  case (4 h t)
  then show ?case by (simp add: reviver_callback_def decode_date)
next
  case (5 h xs)
  then have "internalize_elements (reviver_callback h) 0 (map (plain h) xs) = Inr (map mark xs)"
    by (intro internalize_elements_map) simp
  then show ?case by (simp add: reviver_callback_container)
next
  case (6 h kvs)
  then have "internalize_members (reviver_callback h) (map (\<lambda>kv. (fst kv, plain h (snd kv))) kvs)
      = Inr (map (\<lambda>kv. (fst kv, mark (snd kv))) kvs)"
    by (intro internalize_members_map) simp
  then show ?case by (simp add: reviver_callback_container)
qed (simp_all add: reviver_callback_def decode_def)

lemma mark_sentinel: "round_trip_value h v \<Longrightarrow> mark v = undefinedSymbol \<longleftrightarrow> v = JUndefined"
  by (cases v) (simp_all add: undefinedSymbol_def)

lemma restore_mark:
  "round_trip_value h v \<Longrightarrow> v \<noteq> JUndefined \<Longrightarrow> restore (mark v) = v"
proof (induction h v rule: plain.induct)
  case (5 h xs)
  have "rf (mark x) = x" if "x \<in> set xs" for x
  proof (cases "x = JUndefined")
    case True
    then show ?thesis by (simp add: rf_def)
  next
    case False
    with 5 that have "restore (mark x) = x" "mark x \<noteq> undefinedSymbol"
      by (simp_all add: mark_sentinel [of h])
    then show ?thesis by (simp add: rf_def)
  qed
  then have "map rf (map mark xs) = xs" by (simp add: map_idI)
  then show ?case by (simp only: mark.simps restore_array_rf)
next
  case (6 h kvs)
  have "rf (mark (snd kv)) = snd kv" if "kv \<in> set kvs" for kv
  proof (cases "snd kv = JUndefined")
    case True
    then show ?thesis by (simp add: rf_def)
  next
    case False
    with 6 that have "restore (mark (snd kv)) = snd kv" "mark (snd kv) \<noteq> undefinedSymbol"
      by (simp_all add: mark_sentinel [of h])
    then show ?thesis by (simp add: rf_def)
  qed
  then have "map (\<lambda>kv. (fst kv, rf (snd kv))) (map (\<lambda>kv. (fst kv, mark (snd kv))) kvs) = kvs"
    by (simp add: comp_def map_idI)
  then show ?case by (simp only: mark.simps restore_object_rf)
qed simp_all

lemma wf_value_mark: "round_trip_value h v \<Longrightarrow> wf_value (mark v)"
  by (induction h v rule: plain.induct) (simp_all add: comp_def undefinedSymbol_def)

lemma stringify_plain_call:
  "stringify h v (RepValue JUndefined) JUndefined = Inr (str h [] None [] v)"
  by (simp add: stringify_def make_indent_def invalid_replacer_def rep_entries_def)

lemma parse_enc:
  assumes "round_trip_value h v" and "v \<noteq> JUndefined" and "v \<noteq> JNull"
  shows "str h [] None [] v = Some (enc h v)" and "parse h (enc h v) = Some (Inr v)"
proof -
  from assms(1) have g: "good h v" by (rule round_trip_value_good)
  then show "str h [] None [] v = Some (enc h v)" by (simp add: good_def)
  have "read_value h (enc h v @ []) = Inr (plain h v, [])"
    using g by (intro good_read) (simp_all add: delimited_def)
  then have "JSON_parse h (reviver_callback h) (enc h v) = Inr (mark v)"
    using assms(1) by (simp add: JSON_parse_def skip_ws_def internalize_plain)
  moreover have "mark v \<noteq> JNull" using assms(3) by (cases v) (simp_all add: undefinedSymbol_def)
  then have "sweep_loop (mark v) [[]] = Some (Inr (restore (mark v)))"
    using assms(1) by (intro sweep_loop_root wf_value_mark [of h]) simp_all
  ultimately show "parse h (enc h v) = Some (Inr v)"
    using assms by (simp add: parse_def restore_mark [of h])
qed

text \<open>
  Claim C1. For every value \<open>v\<close> other than \<open>null\<close> and \<open>undefined\<close> that is built from
  \<open>undefined\<close>, \<open>null\<close>, booleans, finite numbers, \<open>NaN\<close>, the two infinities, big integers,
  dates, strings, arrays and objects, in which every string is one that the decoder
  returns as it is and the keys of every object are pairwise different, on a host whose
  conversions read back what they write: \<open>stringify v\<close> with no replacer and no space
  returns a text, and \<open>parse\<close> of that text returns \<open>v\<close>. A field that holds \<open>undefined\<close>
  in \<open>v\<close> is a field of the result, holding \<open>undefined\<close>.
\<close>

theorem parse_stringify_round_trip:
  assumes "round_trip_value h v" and "v \<noteq> JUndefined" and "v \<noteq> JNull"
  shows "case stringify h v (RepValue JUndefined) JUndefined of
           Inr (Some text) \<Rightarrow> parse h text = Some (Inr v)
         | _ \<Rightarrow> False"
  using parse_enc [OF assms] by (simp add: stringify_plain_call)

theorem parse_stringify_round_trip_witness:
  \<open>round_trip_value host0
      (JObject [(lit ''a'', JUndefined),
                (lit ''b'', JArray [JNumber NaN, JBigInt (- 12), JDate (Some 5), JNull, JBool True,
                                    JString (lit ''x y''), JNumber (Fin (- 3))])])
   \<and> stringify host0
      (JObject [(lit ''a'', JUndefined),
                (lit ''b'', JArray [JNumber NaN, JBigInt (- 12), JDate (Some 5), JNull, JBool True,
                                    JString (lit ''x y''), JNumber (Fin (- 3))])])
      (RepValue JUndefined) JUndefined
     = Inr (Some (lit ''{"a":"data:undefined,","b":["data:number,NaN","data:bigint,-12","data:date,5",null,true,"x y",-3]}''))
   \<and> parse host0 (lit ''{"a":"data:undefined,","b":["data:number,NaN","data:bigint,-12","data:date,5",null,true,"x y",-3]}'')
     = Some (Inr (JObject [(lit ''a'', JUndefined),
                (lit ''b'', JArray [JNumber NaN, JBigInt (- 12), JDate (Some 5), JNull, JBool True,
                                    JString (lit ''x y''), JNumber (Fin (- 3))])]))\<close>
  using parse_stringify_round_trip [of host0 \<open>JObject [(lit ''a'', JUndefined),
                (lit ''b'', JArray [JNumber NaN, JBigInt (- 12), JDate (Some 5), JNull, JBool True,
                                    JString (lit ''x y''), JNumber (Fin (- 3))])]\<close>]
  by (simp add: stringify_def make_indent_def invalid_replacer_def rep_entries_def
      member_def wrap_def quote_def rx_escapable_def lit_def host0_def toDataURL_def or_null_def Let_def
      String_int_def String_nat_def String_time_def toString_radix.simps digit_char_def
      decode_def token_shape_def json_number_def int_part_def frac_part_def exp_part_def digits1_def
      is_digit_def read_int_def read_nat_def)

text \<open>
  The claim as stated fails for a string that has the shape of a token: the string
  \<open>data:number,NaN\<close> is written as it is and read back as the number \<open>NaN\<close>.
\<close>

theorem token_shaped_string_counterexample:
  \<open>stringify host0 (JString (lit ''data:number,NaN'')) (RepValue JUndefined) JUndefined
     = Inr (Some (lit ''"data:number,NaN"''))
   \<and> parse host0 (lit ''"data:number,NaN"'') = Some (Inr (JNumber NaN))
   \<and> JNumber NaN \<noteq> (JString (lit ''data:number,NaN'') :: int jsvalue)\<close>
  by (simp add: stringify_def make_indent_def invalid_replacer_def rep_entries_def quote_def rx_escapable_def
      lit_def parse_def JSON_parse_def read_value.simps skip_ws_def is_ws_def prepend_def
      reviver_callback_def decode_def token_shape_def parseDataURL_def element_def Let_def
      sweep_loop.simps [of "JNumber NaN" "[[]]"] sweep_loop.simps [of "JNumber NaN" "[]"] Object_keys_def)

text \<open>
  At a root \<open>null\<close> the loop over the queue calls \<open>Object.keys(null)\<close>, which throws.
\<close>

lemma parse_null_root:
  "stringify h JNull (RepValue JUndefined) JUndefined = Inr (Some (lit ''null''))
   \<and> parse h (lit ''null'') = Some (Inl TypeError)"
  by (simp add: stringify_def make_indent_def invalid_replacer_def rep_entries_def
      lit_def parse_def JSON_parse_def read_value.simps skip_ws_def is_ws_def
      reviver_callback_def decode_def sweep_loop.simps [of JNull "[[]]"] Object_keys_def)

section \<open>The encoder and decoder against the native functions\<close>

subsection \<open>Quoting\<close>









subsection \<open>Serializing\<close>











subsection \<open>Parsing\<close>











end
